theory Spec2Isabelle
  imports Main "HOL-Library.AList" "HOL-Library.Multiset"
begin

section \<open>The range reducer of Coverage.js\<close>

text \<open>
  Offsets and hit counts are the integers of the debugging protocol. An input range is
  the protocol's \<open>{startOffset, endOffset, count}\<close>; an output range is \<open>{start, end}\<close>
  (the field \<open>end\<close> is written \<open>end'\<close>, \<open>end\<close> being a keyword).
\<close>

record coverage_range =
  startOffset :: int
  endOffset :: int
  count :: int

text \<open>A sweep point \<open>{offset, type, range}\<close>: type 0 opens its range, type 1 closes it.\<close>

record point =
  offset :: int
  type :: int
  range :: coverage_range

record disjoint_range =
  start :: int
  end' :: int

text \<open>The first loop of \<open>convertToDisjointRanges\<close>: two points per range, in input order.\<close>

fun make_points :: "coverage_range list \<Rightarrow> point list" where
  "make_points [] = []"
| "make_points (r # rs) =
     \<lparr>offset = startOffset r, type = 0, range = r\<rparr> #
     \<lparr>offset = endOffset r, type = 1, range = r\<rparr> # make_points rs"

text \<open>The comparator handed to \<open>points.sort\<close>, branch by branch.\<close>

definition compare_points :: "point \<Rightarrow> point \<Rightarrow> int" where
  "compare_points a b =
     (if offset a \<noteq> offset b then offset a - offset b
      else if type a \<noteq> type b then type b - type a
      else let aLength = endOffset (range a) - startOffset (range a);
               bLength = endOffset (range b) - startOffset (range b)
           in if type a = 0 then bLength - aLength else aLength - bLength)"

text \<open>
  \<open>Array.prototype.sort\<close> is a stable sort. It is modelled as the stable insertion sort
  by a comparator: an element goes in front of the first later element that it does not
  exceed, so elements that compare equal keep their input order.
\<close>

fun insert_by :: "('a \<Rightarrow> 'a \<Rightarrow> int) \<Rightarrow> 'a \<Rightarrow> 'a list \<Rightarrow> 'a list" where
  "insert_by cmp x [] = [x]"
| "insert_by cmp x (y # ys) =
     (if cmp x y \<le> 0 then x # y # ys else y # insert_by cmp x ys)"

fun sort_by :: "('a \<Rightarrow> 'a \<Rightarrow> int) \<Rightarrow> 'a list \<Rightarrow> 'a list" where
  "sort_by cmp [] = []"
| "sort_by cmp (x # xs) = insert_by cmp x (sort_by cmp xs)"

text \<open>
  One turn of the scanning loop computes the new \<open>results\<close> array: when the stack is
  not empty, the offset advanced and the top count is positive, the segment
  \<open>[lastOffset, point.offset)\<close> either extends the last result or is pushed.
  The stack and the results keep the source's orientation: the top and the most recent
  result are the last elements.
\<close>

definition record_segment ::
  "int list \<Rightarrow> disjoint_range list \<Rightarrow> int \<Rightarrow> point \<Rightarrow> disjoint_range list" where
  "record_segment hitCountStack results lastOffset p =
     (if hitCountStack \<noteq> [] \<and> lastOffset < offset p \<and> last hitCountStack > 0
      then (if results \<noteq> [] \<and> end' (last results) = lastOffset
            then butlast results @ [(last results)\<lparr>end' := offset p\<rparr>]
            else results @ [\<lparr>start = lastOffset, end' = offset p\<rparr>])
      else results)"

text \<open>
  The stack update of one turn: a start point pushes its range's count, any other point
  pops; \<open>pop\<close> on an empty array does nothing.
\<close>

definition update_stack :: "int list \<Rightarrow> point \<Rightarrow> int list" where
  "update_stack hitCountStack p =
     (if type p = 0 then hitCountStack @ [count (range p)] else butlast hitCountStack)"

text \<open>The scanning loop over the sorted points.\<close>

fun scan :: "int list \<Rightarrow> disjoint_range list \<Rightarrow> int \<Rightarrow> point list \<Rightarrow> disjoint_range list" where
  "scan hitCountStack results lastOffset [] = results"
| "scan hitCountStack results lastOffset (p # ps) =
     scan (update_stack hitCountStack p)
          (record_segment hitCountStack results lastOffset p)
          (offset p) ps"

definition convertToDisjointRanges :: "coverage_range list \<Rightarrow> disjoint_range list" where
  "convertToDisjointRanges nestedRanges =
     filter (\<lambda>r. end' r - start r > 1)
       (scan [] [] 0 (sort_by compare_points (make_points nestedRanges)))"

section \<open>Protocol data and collector state\<close>

text \<open>
  Script and stylesheet identifiers, URLs and source texts are the protocol's strings.
  A JavaScript \<open>Map\<close> is an association list: \<open>AList.update\<close> overwrites the value of a
  key in place and appends a new key, which is the insertion order that \<open>Map.set\<close> keeps
  and \<open>keys()\<close> walks; \<open>map_of\<close> is \<open>Map.get\<close>, with \<open>None\<close> for \<open>undefined\<close>; \<open>clear()\<close>
  leaves the empty list.
\<close>

datatype error = UsageError string | ProtocolError string

text \<open>
  Modelled from the spec: \<open>assert\<close> of assert.js is not under src/. The spec has the failed
  check of \<open>start\<close> and \<open>stop\<close> raise the usage error, carrying the message handed over.
\<close>

definition assert :: "bool \<Rightarrow> string \<Rightarrow> error option" where
  "assert v message = (if v then None else Some (UsageError message))"

text \<open>
  Modelled from the spec: the constant \<open>EVALUATION_SCRIPT_URL\<close> of ExecutionContext.js is
  not under src/. It is the reserved internal URL of the engine's own injected scripts,
  which the documentation of \<open>startJSCoverage\<close> spells out.
\<close>

definition EVALUATION_SCRIPT_URL :: string where
  "EVALUATION_SCRIPT_URL = ''__puppeteer_evaluation_script__''"

text \<open>The event \<open>Debugger.scriptParsed\<close>: \<open>{scriptId, url}\<close>.\<close>

record script_event =
  event_scriptId :: string
  event_url :: string

text \<open>
  One per-script result of \<open>Profiler.takePreciseCoverage\<close>: its script id and its
  functions, each function being the list of its ranges (\<open>func.ranges\<close>).
\<close>

record script_coverage =
  scriptId :: string
  functions' :: "coverage_range list list"

text \<open>An entry of the JavaScript report; \<open>rawScriptCoverage\<close> is present only on request.\<close>

record js_coverage_entry =
  url :: string
  ranges :: "disjoint_range list"
  text' :: string
  rawScriptCoverage :: "script_coverage option"

text \<open>The header of the event \<open>CSS.styleSheetAdded\<close>: \<open>{styleSheetId, sourceURL}\<close>.\<close>

record stylesheet_header =
  styleSheetId :: string
  sourceURL :: string

text \<open>One rule-usage record of \<open>CSS.stopRuleUsageTracking\<close>.\<close>

record rule_usage =
  usage_styleSheetId :: string
  usage_startOffset :: int
  usage_endOffset :: int
  used :: bool

text \<open>
  An entry of the CSS report. \<open>CSSCoverage.stop\<close> reads the URL and the text from the two
  maps without a check, so both fields can be \<open>undefined\<close> (\<open>None\<close>) as far as the code of
  \<open>stop\<close> goes.
\<close>

record css_coverage_entry =
  css_url :: "string option"
  css_ranges :: "disjoint_range list"
  css_text :: "string option"

text \<open>
  The fields that both collector classes declare, and then each class. The listeners are
  kept by the name of the event they subscribe to.
\<close>

record collector =
  enabled :: bool
  eventListeners :: "string list"
  resetOnNavigation :: bool
  reportAnonymousScripts :: bool

record JSCoverage = collector +
  scriptURLs :: "(string \<times> string) list"
  scriptSources :: "(string \<times> string) list"
  includeRawScriptCoverage :: bool

record CSSCoverage = collector +
  stylesheetURLs :: "(string \<times> string) list"
  stylesheetSources :: "(string \<times> string) list"

text \<open>The options of \<open>start\<close>; an absent option takes the default of the destructuring.\<close>

record js_options =
  opt_resetOnNavigation :: "bool option"
  opt_reportAnonymousScripts :: "bool option"
  opt_includeRawScriptCoverage :: "bool option"

definition default_to :: "'a \<Rightarrow> 'a option \<Rightarrow> 'a" where
  "default_to d v = (case v of None \<Rightarrow> d | Some x \<Rightarrow> x)"

section \<open>JSCoverage\<close>

definition JSCoverage_new :: JSCoverage where
  "JSCoverage_new =
     \<lparr>enabled = False, eventListeners = [], resetOnNavigation = False,
      reportAnonymousScripts = False, scriptURLs = [], scriptSources = [],
      includeRawScriptCoverage = False\<rparr>"

text \<open>
  \<open>start\<close>: the assertion comes first; then the options, the flag, the two maps and the
  listeners are set, and only then the four protocol commands are awaited. \<open>sent\<close> is
  the outcome of that \<open>Promise.all\<close>: \<open>Inl\<close> the protocol error of a command that failed.
  The result is the collector after the call and what the call returned or threw.
\<close>

definition JSCoverage_start ::
  "JSCoverage \<Rightarrow> js_options \<Rightarrow> string + unit \<Rightarrow> JSCoverage \<times> (error + unit)" where
  "JSCoverage_start this options sent =
     (case assert (\<not> enabled this) ''JSCoverage is already enabled'' of
        Some e \<Rightarrow> (this, Inl e)
      | None \<Rightarrow>
          let this' = this
                \<lparr>resetOnNavigation := default_to True (opt_resetOnNavigation options),
                 reportAnonymousScripts := default_to False (opt_reportAnonymousScripts options),
                 includeRawScriptCoverage :=
                   default_to False (opt_includeRawScriptCoverage options),
                 enabled := True,
                 scriptURLs := [],
                 scriptSources := [],
                 eventListeners :=
                   [''Debugger.scriptParsed'', ''Runtime.executionContextsCleared'']\<rparr>
          in (case sent of
                Inl e \<Rightarrow> (this', Inl (ProtocolError e))
              | Inr u \<Rightarrow> (this', Inr ())))"

definition JSCoverage_onExecutionContextsCleared :: "JSCoverage \<Rightarrow> JSCoverage" where
  "JSCoverage_onExecutionContextsCleared this =
     (if \<not> resetOnNavigation this then this
      else this\<lparr>scriptURLs := [], scriptSources := []\<rparr>)"

text \<open>
  \<open>_onScriptParsed\<close> is asynchronous. Up to its \<open>await\<close> it only decides whether the
  source of the script is requested; other handlers can run before the answer arrives.
\<close>

definition JSCoverage_onScriptParsed_requests :: "JSCoverage \<Rightarrow> script_event \<Rightarrow> bool" where
  "JSCoverage_onScriptParsed_requests this event =
     (if event_url event = EVALUATION_SCRIPT_URL then False
      else if event_url event = [] \<and> \<not> reportAnonymousScripts this then False
      else True)"

text \<open>
  The rest of \<open>_onScriptParsed\<close>, run when \<open>Debugger.getScriptSource\<close> has answered: the
  source is recorded under the script id together with the URL of the event, or the
  error is caught and logged.
\<close>

definition JSCoverage_onScriptParsed_resume ::
  "JSCoverage \<Rightarrow> script_event \<Rightarrow> string + string \<Rightarrow> JSCoverage" where
  "JSCoverage_onScriptParsed_resume this event response =
     (case response of
        Inr scriptSource \<Rightarrow>
          this\<lparr>scriptURLs := AList.update (event_scriptId event) (event_url event)
                                (scriptURLs this),
               scriptSources := AList.update (event_scriptId event) scriptSource
                                (scriptSources this)\<rparr>
      | Inl e \<Rightarrow> this)"

text \<open>
  The body of the loop of \<open>stop\<close> for one per-script result: \<open>None\<close> is the \<open>continue\<close>.
  An empty string and \<open>undefined\<close> are the falsy URLs.
\<close>

definition JSCoverage_entry :: "JSCoverage \<Rightarrow> script_coverage \<Rightarrow> js_coverage_entry option" where
  "JSCoverage_entry this entry =
     (let url0 = map_of (scriptURLs this) (scriptId entry);
          url' = (if (url0 = None \<or> url0 = Some []) \<and> reportAnonymousScripts this
                  then Some (''debugger://VM'' @ scriptId entry) else url0);
          source = map_of (scriptSources this) (scriptId entry)
      in case source of
           None \<Rightarrow> None
         | Some t \<Rightarrow>
             (case url' of
                None \<Rightarrow> None
              | Some u \<Rightarrow>
                  Some \<lparr>url = u,
                        ranges = convertToDisjointRanges (concat (functions' entry)),
                        text' = t,
                        rawScriptCoverage =
                          (if \<not> includeRawScriptCoverage this then None else Some entry)\<rparr>))"

fun JSCoverage_collect :: "JSCoverage \<Rightarrow> script_coverage list \<Rightarrow> js_coverage_entry list" where
  "JSCoverage_collect this [] = []"
| "JSCoverage_collect this (entry # entries) =
     (case JSCoverage_entry this entry of
        None \<Rightarrow> JSCoverage_collect this entries
      | Some c \<Rightarrow> c # JSCoverage_collect this entries)"

text \<open>
  \<open>stop\<close>: the assertion, the flag, then the four protocol commands, of which the first
  answers with the per-script results (\<open>taken\<close>, \<open>Inl\<close> when a command failed).
  Modelled from the spec: \<open>helper.removeEventListeners\<close> is not under src/; the spec has
  \<open>stop\<close> unsubscribe all listeners.
\<close>

definition JSCoverage_stop ::
  "JSCoverage \<Rightarrow> string + script_coverage list \<Rightarrow>
   JSCoverage \<times> (error + js_coverage_entry list)" where
  "JSCoverage_stop this taken =
     (case assert (enabled this) ''JSCoverage is not enabled'' of
        Some e \<Rightarrow> (this, Inl e)
      | None \<Rightarrow>
          let this' = this\<lparr>enabled := False\<rparr>
          in (case taken of
                Inl e \<Rightarrow> (this', Inl (ProtocolError e))
              | Inr profileResponse \<Rightarrow>
                  (this'\<lparr>eventListeners := []\<rparr>,
                   Inr (JSCoverage_collect this' profileResponse))))"

section \<open>CSSCoverage\<close>

definition CSSCoverage_new :: CSSCoverage where
  "CSSCoverage_new =
     \<lparr>enabled = False, eventListeners = [], resetOnNavigation = False,
      reportAnonymousScripts = False, stylesheetURLs = [], stylesheetSources = []\<rparr>"

text \<open>\<open>start\<close> takes the one option \<open>resetOnNavigation\<close>, absent or given.\<close>

definition CSSCoverage_start ::
  "CSSCoverage \<Rightarrow> bool option \<Rightarrow> string + unit \<Rightarrow> CSSCoverage \<times> (error + unit)" where
  "CSSCoverage_start this option_resetOnNavigation sent =
     (case assert (\<not> enabled this) ''CSSCoverage is already enabled'' of
        Some e \<Rightarrow> (this, Inl e)
      | None \<Rightarrow>
          let this' = this
                \<lparr>resetOnNavigation := default_to True option_resetOnNavigation,
                 enabled := True,
                 stylesheetURLs := [],
                 stylesheetSources := [],
                 eventListeners :=
                   [''CSS.styleSheetAdded'', ''Runtime.executionContextsCleared'']\<rparr>
          in (case sent of
                Inl e \<Rightarrow> (this', Inl (ProtocolError e))
              | Inr u \<Rightarrow> (this', Inr ())))"

definition CSSCoverage_onExecutionContextsCleared :: "CSSCoverage \<Rightarrow> CSSCoverage" where
  "CSSCoverage_onExecutionContextsCleared this =
     (if \<not> resetOnNavigation this then this
      else this\<lparr>stylesheetURLs := [], stylesheetSources := []\<rparr>)"

text \<open>\<open>_onStyleSheet\<close> up to its \<open>await\<close>: is the text of the sheet requested?\<close>

definition CSSCoverage_onStyleSheet_requests :: "CSSCoverage \<Rightarrow> stylesheet_header \<Rightarrow> bool" where
  "CSSCoverage_onStyleSheet_requests this header =
     (if sourceURL header = [] then False else True)"

text \<open>The rest of \<open>_onStyleSheet\<close>, run when \<open>CSS.getStyleSheetText\<close> has answered.\<close>

definition CSSCoverage_onStyleSheet_resume ::
  "CSSCoverage \<Rightarrow> stylesheet_header \<Rightarrow> string + string \<Rightarrow> CSSCoverage" where
  "CSSCoverage_onStyleSheet_resume this header response =
     (case response of
        Inr sheetText \<Rightarrow>
          this\<lparr>stylesheetURLs := AList.update (styleSheetId header) (sourceURL header)
                                    (stylesheetURLs this),
               stylesheetSources := AList.update (styleSheetId header) sheetText
                                    (stylesheetSources this)\<rparr>
      | Inl e \<Rightarrow> this)"

text \<open>The first loop of \<open>stop\<close>: the usage records gathered by stylesheet id.\<close>

fun aggregate ::
  "(string \<times> coverage_range list) list \<Rightarrow> rule_usage list \<Rightarrow>
   (string \<times> coverage_range list) list" where
  "aggregate styleSheetIdToCoverage [] = styleSheetIdToCoverage"
| "aggregate styleSheetIdToCoverage (entry # entries) =
     (let r = \<lparr>startOffset = usage_startOffset entry, endOffset = usage_endOffset entry,
               count = (if used entry then 1 else 0)\<rparr>
      in aggregate
           (case map_of styleSheetIdToCoverage (usage_styleSheetId entry) of
              None \<Rightarrow> AList.update (usage_styleSheetId entry) [r] styleSheetIdToCoverage
            | Some ranges' \<Rightarrow>
                AList.update (usage_styleSheetId entry) (ranges' @ [r]) styleSheetIdToCoverage)
           entries)"

text \<open>The body of the second loop of \<open>stop\<close>, for one key of \<open>_stylesheetURLs\<close>.\<close>

definition CSSCoverage_entry ::
  "CSSCoverage \<Rightarrow> (string \<times> coverage_range list) list \<Rightarrow> string \<Rightarrow> css_coverage_entry" where
  "CSSCoverage_entry this styleSheetIdToCoverage sheetId =
     \<lparr>css_url = map_of (stylesheetURLs this) sheetId,
      css_ranges = convertToDisjointRanges
        (case map_of styleSheetIdToCoverage sheetId of None \<Rightarrow> [] | Some rs \<Rightarrow> rs),
      css_text = map_of (stylesheetSources this) sheetId\<rparr>"

definition CSSCoverage_collect :: "CSSCoverage \<Rightarrow> rule_usage list \<Rightarrow> css_coverage_entry list" where
  "CSSCoverage_collect this ruleUsage =
     map (CSSCoverage_entry this (aggregate [] ruleUsage)) (map fst (stylesheetURLs this))"

text \<open>
  \<open>stop\<close>: the assertion, the flag, the command \<open>CSS.stopRuleUsageTracking\<close> (\<open>tracked\<close>),
  then the two disabling commands (\<open>disabled\<close>), then the report.
  Modelled from the spec: \<open>helper.removeEventListeners\<close> is not under src/; the spec has
  \<open>stop\<close> unsubscribe all listeners.
\<close>

definition CSSCoverage_stop ::
  "CSSCoverage \<Rightarrow> string + rule_usage list \<Rightarrow> string + unit \<Rightarrow>
   CSSCoverage \<times> (error + css_coverage_entry list)" where
  "CSSCoverage_stop this tracked disabled =
     (case assert (enabled this) ''CSSCoverage is not enabled'' of
        Some e \<Rightarrow> (this, Inl e)
      | None \<Rightarrow>
          let this' = this\<lparr>enabled := False\<rparr>
          in (case tracked of
                Inl e \<Rightarrow> (this', Inl (ProtocolError e))
              | Inr ruleUsage \<Rightarrow>
                  (case disabled of
                     Inl e \<Rightarrow> (this', Inl (ProtocolError e))
                   | Inr u \<Rightarrow>
                       (this'\<lparr>eventListeners := []\<rparr>,
                        Inr (CSSCoverage_collect this' ruleUsage)))))"

section \<open>Collector sessions\<close>

text \<open>
  What can happen to a collector, one atomic step at a time: a call of \<open>start\<close> or
  \<open>stop\<close> with the outcome of its protocol commands, an event, or the answer to a source
  request that an earlier event sent. A session is the collector together with the
  requests still waiting for their answer. Handlers are allowed to run in any state,
  which covers every order in which the client can deliver events and answers.
\<close>

datatype js_action =
    JS_start js_options "string + unit"
  | JS_stop "string + script_coverage list"
  | JS_scriptParsed script_event
  | JS_scriptSource script_event "string + string"
  | JS_executionContextsCleared

record js_session =
  js_collector :: JSCoverage
  js_pending :: "script_event list"

fun js_step :: "js_session \<Rightarrow> js_action \<Rightarrow> js_session" where
  "js_step s (JS_start options sent) =
     s\<lparr>js_collector := fst (JSCoverage_start (js_collector s) options sent)\<rparr>"
| "js_step s (JS_stop taken) =
     s\<lparr>js_collector := fst (JSCoverage_stop (js_collector s) taken)\<rparr>"
| "js_step s (JS_scriptParsed event) =
     (if JSCoverage_onScriptParsed_requests (js_collector s) event
      then s\<lparr>js_pending := js_pending s @ [event]\<rparr> else s)"
| "js_step s (JS_scriptSource event response) =
     (if event \<in> set (js_pending s)
      then \<lparr>js_collector = JSCoverage_onScriptParsed_resume (js_collector s) event response,
            js_pending = remove1 event (js_pending s)\<rparr>
      else s)"
| "js_step s JS_executionContextsCleared =
     s\<lparr>js_collector := JSCoverage_onExecutionContextsCleared (js_collector s)\<rparr>"

fun js_run :: "js_session \<Rightarrow> js_action list \<Rightarrow> js_session" where
  "js_run s [] = s"
| "js_run s (a # as) = js_run (js_step s a) as"

definition js_new :: js_session where
  "js_new = \<lparr>js_collector = JSCoverage_new, js_pending = []\<rparr>"

datatype css_action =
    CSS_start "bool option" "string + unit"
  | CSS_stop "string + rule_usage list" "string + unit"
  | CSS_styleSheetAdded stylesheet_header
  | CSS_styleSheetText stylesheet_header "string + string"
  | CSS_executionContextsCleared

record css_session =
  css_collector :: CSSCoverage
  css_pending :: "stylesheet_header list"

fun css_step :: "css_session \<Rightarrow> css_action \<Rightarrow> css_session" where
  "css_step s (CSS_start option_resetOnNavigation sent) =
     s\<lparr>css_collector :=
         fst (CSSCoverage_start (css_collector s) option_resetOnNavigation sent)\<rparr>"
| "css_step s (CSS_stop tracked disabled) =
     s\<lparr>css_collector := fst (CSSCoverage_stop (css_collector s) tracked disabled)\<rparr>"
| "css_step s (CSS_styleSheetAdded header) =
     (if CSSCoverage_onStyleSheet_requests (css_collector s) header
      then s\<lparr>css_pending := css_pending s @ [header]\<rparr> else s)"
| "css_step s (CSS_styleSheetText header response) =
     (if header \<in> set (css_pending s)
      then \<lparr>css_collector = CSSCoverage_onStyleSheet_resume (css_collector s) header response,
            css_pending = remove1 header (css_pending s)\<rparr>
      else s)"
| "css_step s CSS_executionContextsCleared =
     s\<lparr>css_collector := CSSCoverage_onExecutionContextsCleared (css_collector s)\<rparr>"

fun css_run :: "css_session \<Rightarrow> css_action list \<Rightarrow> css_session" where
  "css_run s [] = s"
| "css_run s (a # as) = css_run (css_step s a) as"

definition css_new :: css_session where
  "css_new = \<lparr>css_collector = CSSCoverage_new, css_pending = []\<rparr>"

section \<open>Notions used by the properties\<close>

text \<open>
  Output ranges are separated when each ends strictly before the next starts and none is
  empty; two ranges are disjoint when they share no position.
\<close>

definition separated :: "disjoint_range list \<Rightarrow> bool" where
  "separated rs =
     (sorted_wrt (\<lambda>a b. end' a < start b) rs \<and> list_all (\<lambda>r. start r < end' r) rs)"

definition disjoint_ranges :: "disjoint_range \<Rightarrow> disjoint_range \<Rightarrow> bool" where
  "disjoint_ranges a b = ({start a ..< end' a} \<inter> {start b ..< end' b} = {})"

text \<open>
  An input range covers the positions from its start up to, not including, its end; a
  position is covered when a range with a positive count covers it.
\<close>

definition covers :: "coverage_range \<Rightarrow> int \<Rightarrow> bool" where
  "covers r x = (startOffset r \<le> x \<and> x < endOffset r)"

definition covered :: "coverage_range list \<Rightarrow> int \<Rightarrow> bool" where
  "covered rs x = list_ex (\<lambda>r. covers r x \<and> 0 < count r) rs"

text \<open>
  A range is inside another when it starts no earlier and ends no later. A position is
  used when the innermost range covering it has a positive count: a range with a positive
  count covers it and is inside every range that covers it.
\<close>

definition inside :: "coverage_range \<Rightarrow> coverage_range \<Rightarrow> bool" where
  "inside r q = (startOffset q \<le> startOffset r \<and> endOffset r \<le> endOffset q)"

definition used_at :: "coverage_range list \<Rightarrow> int \<Rightarrow> bool" where
  "used_at rs x =
     list_ex (\<lambda>r. covers r x \<and> 0 < count r \<and> list_all (\<lambda>q. covers q x \<longrightarrow> inside r q) rs) rs"

text \<open>
  Well-nested input: no range is empty, any two ranges are nested or apart, and two
  ranges with the same two offsets agree on whether their count is positive.
\<close>

definition well_nested :: "coverage_range list \<Rightarrow> bool" where
  "well_nested rs =
     list_all (\<lambda>r. startOffset r < endOffset r \<and>
        list_all (\<lambda>q. (inside r q \<or> inside q r
                       \<or> endOffset r \<le> startOffset q \<or> endOffset q \<le> startOffset r)
                     \<and> (startOffset r = startOffset q \<and> endOffset r = endOffset q
                          \<longrightarrow> (0 < count r) = (0 < count q))) rs) rs"

text \<open>The positions of an output range, and of a list of output ranges.\<close>

definition within :: "disjoint_range \<Rightarrow> int \<Rightarrow> bool" where
  "within u x = (start u \<le> x \<and> x < end' u)"

definition positions :: "disjoint_range list \<Rightarrow> int set" where
  "positions us = {x. \<exists>u\<in>set us. within u x}"

text \<open>
  For the sweep: what the scan can tell of a range (its offsets and whether its count is
  positive), the ranges opened and the ranges closed by a list of points, a point that
  is the start or the end of an input range, and a stack of ranges each inside the one
  below it.
\<close>

definition interval_of :: "coverage_range \<Rightarrow> int \<times> int \<times> bool" where
  "interval_of r = (startOffset r, endOffset r, 0 < count r)"

definition starts :: "point list \<Rightarrow> (int \<times> int \<times> bool) multiset" where
  "starts ps = mset (map (\<lambda>p. interval_of (range p)) (filter (\<lambda>p. type p = 0) ps))"

definition ends :: "point list \<Rightarrow> (int \<times> int \<times> bool) multiset" where
  "ends ps = mset (map (\<lambda>p. interval_of (range p)) (filter (\<lambda>p. type p \<noteq> 0) ps))"

definition point_of :: "coverage_range list \<Rightarrow> point \<Rightarrow> bool" where
  "point_of rs p =
     (range p \<in> set rs
      \<and> (type p = 0 \<and> offset p = startOffset (range p)
         \<or> type p = 1 \<and> offset p = endOffset (range p)))"

definition chain :: "(int \<times> int \<times> bool) list \<Rightarrow> bool" where
  "chain G = sorted_wrt (\<lambda>a b. fst a \<le> fst b \<and> fst (snd b) \<le> fst (snd a)) G"

text \<open>
  The invariant of the scanning loop, between the points already handled (\<open>pre\<close>) and
  those to come (\<open>ps\<close>): the points are in the order of the comparator and are the points
  of the input, \<open>lo\<close> lies between the two parts, and the stack holds the counts of the
  ranges \<open>G\<close> that are open, outermost first.
\<close>

definition sweep_inv ::
  "coverage_range list \<Rightarrow> point list \<Rightarrow> point list \<Rightarrow> int \<Rightarrow> int list \<Rightarrow>
   (int \<times> int \<times> bool) list \<Rightarrow> bool" where
  "sweep_inv rs pre ps lo st G =
     ((\<forall>q\<in>set pre. \<forall>p\<in>set ps. compare_points q p \<le> 0)
      \<and> sorted_wrt (\<lambda>a b. compare_points a b \<le> 0) ps
      \<and> (\<forall>p\<in>set pre \<union> set ps. point_of rs p)
      \<and> (\<forall>q\<in>set rs. \<lparr>offset = startOffset q, type = 0, range = q\<rparr> \<in> set pre \<union> set ps
                   \<and> \<lparr>offset = endOffset q, type = 1, range = q\<rparr> \<in> set pre \<union> set ps)
      \<and> (\<forall>q\<in>set pre. offset q \<le> lo)
      \<and> (\<forall>p\<in>set ps. lo \<le> offset p)
      \<and> map (\<lambda>c. 0 < c) st = map (\<lambda>g. snd (snd g)) G
      \<and> chain G
      \<and> mset G + ends pre = starts pre
      \<and> mset G + starts ps = ends ps)"

text \<open>An output range read as an input range, with count 1.\<close>

definition as_counted :: "disjoint_range \<Rightarrow> coverage_range" where
  "as_counted r = \<lparr>startOffset = start r, endOffset = end' r, count = 1\<rparr>"

text \<open>
  The script ids, and the stylesheet ids, whose source answer arrived with success among
  the given steps: the registrations that those steps can complete.
\<close>

fun js_registered :: "js_action list \<Rightarrow> string list" where
  "js_registered [] = []"
| "js_registered (JS_scriptSource event (Inr scriptSource) # as) =
     event_scriptId event # js_registered as"
| "js_registered (a # as) = js_registered as"

fun css_registered :: "css_action list \<Rightarrow> string list" where
  "css_registered [] = []"
| "css_registered (CSS_styleSheetText header (Inr sheetText) # as) =
     styleSheetId header # css_registered as"
| "css_registered (a # as) = css_registered as"





text \<open>
  What every CSS session keeps true: the two maps have the same keys in the same order,
  no key twice, every recorded URL is non-empty, and so is the URL of every sheet whose
  text is still awaited.
\<close>

definition css_invariant :: "css_session \<Rightarrow> bool" where
  "css_invariant s =
     (map fst (stylesheetURLs (css_collector s)) = map fst (stylesheetSources (css_collector s))
      \<and> distinct (map fst (stylesheetURLs (css_collector s)))
      \<and> list_all (\<lambda>kv. snd kv \<noteq> []) (stylesheetURLs (css_collector s))
      \<and> list_all (\<lambda>h. sourceURL h \<noteq> []) (css_pending s))"

section \<open>Concrete sessions\<close>

definition js_collecting :: JSCoverage where
  "js_collecting = fst (JSCoverage_start JSCoverage_new
      \<lparr>opt_resetOnNavigation = None, opt_reportAnonymousScripts = None,
       opt_includeRawScriptCoverage = None\<rparr> (Inr ()))"

definition css_collecting :: CSSCoverage where
  "css_collecting = fst (CSSCoverage_start CSSCoverage_new None (Inr ()))"

text \<open>
  A JavaScript session with the default options: script 7 of \<open>a.js\<close> is parsed and its
  source arrives. The same session with anonymous scripts reported.
\<close>

definition js_example :: js_session where
  "js_example = js_run js_new
     [JS_start \<lparr>opt_resetOnNavigation = None, opt_reportAnonymousScripts = None,
                opt_includeRawScriptCoverage = None\<rparr> (Inr ()),
      JS_scriptParsed \<lparr>event_scriptId = ''7'', event_url = ''a.js''\<rparr>,
      JS_scriptSource \<lparr>event_scriptId = ''7'', event_url = ''a.js''\<rparr> (Inr ''f()'')]"


text \<open>
  A CSS session: sheet 1 of \<open>a.css\<close> is added and its text arrives, then sheet 2 is added
  without a source URL.
\<close>

definition css_example_steps :: "css_action list" where
  "css_example_steps =
     [CSS_start None (Inr ()),
      CSS_styleSheetAdded \<lparr>styleSheetId = ''1'', sourceURL = ''a.css''\<rparr>,
      CSS_styleSheetText \<lparr>styleSheetId = ''1'', sourceURL = ''a.css''\<rparr> (Inr ''p{}''),
      CSS_styleSheetAdded \<lparr>styleSheetId = ''2'', sourceURL = []\<rparr>]"

section \<open>The examples of the reducer\<close>

text \<open>
  C2: the reducer maps \<open>[{0,10,1}]\<close> to \<open>[{0,10}]\<close>, \<open>[{0,10,1},{3,6,0}]\<close> to
  \<open>[{0,3},{6,10}]\<close>, \<open>[{0,2,1},{1,2,1}]\<close> to \<open>[{0,2}]\<close>, \<open>[{5,6,1}]\<close> to the empty list, and
  the empty input to the empty output.
\<close>

theorem convertToDisjointRanges_examples:
  "convertToDisjointRanges [\<lparr>startOffset = 0, endOffset = 10, count = 1\<rparr>]
     = [\<lparr>start = 0, end' = 10\<rparr>]
   \<and> convertToDisjointRanges [\<lparr>startOffset = 0, endOffset = 10, count = 1\<rparr>,
                              \<lparr>startOffset = 3, endOffset = 6, count = 0\<rparr>]
     = [\<lparr>start = 0, end' = 3\<rparr>, \<lparr>start = 6, end' = 10\<rparr>]
   \<and> convertToDisjointRanges [\<lparr>startOffset = 0, endOffset = 2, count = 1\<rparr>,
                              \<lparr>startOffset = 1, endOffset = 2, count = 1\<rparr>]
     = [\<lparr>start = 0, end' = 2\<rparr>]
   \<and> convertToDisjointRanges [\<lparr>startOffset = 5, endOffset = 6, count = 1\<rparr>] = []
   \<and> convertToDisjointRanges [] = []"
  by (simp add: convertToDisjointRanges_def compare_points_def record_segment_def
      update_stack_def)

section \<open>The reducer's output is separated\<close>

lemma compare_points_le_offset: "compare_points a b \<le> 0 \<Longrightarrow> offset a \<le> offset b"
  by (auto simp: compare_points_def split: if_splits)

lemma compare_points_gt_offset: "compare_points a b > 0 \<Longrightarrow> offset b \<le> offset a"
  by (auto simp: compare_points_def split: if_splits)

lemma set_insert_by: "set (insert_by cmp x xs) = insert x (set xs)"
  by (induction xs) auto

lemma set_sort_by: "set (sort_by cmp xs) = set xs"
  by (induction xs) (auto simp: set_insert_by)

lemma insert_by_offset_sorted:
  "sorted_wrt (\<lambda>a b. offset a \<le> offset b) ps \<Longrightarrow>
   sorted_wrt (\<lambda>a b. offset a \<le> offset b) (insert_by compare_points p ps)"
proof (induction ps)
  case Nil
  then show ?case by simp
next
  case (Cons q qs)
  show ?case
  proof (cases "compare_points p q \<le> 0")
    case True
    then have "offset p \<le> offset q" by (rule compare_points_le_offset)
    with Cons.prems True show ?thesis by fastforce
  next
    case False
    then have "offset q \<le> offset p" using compare_points_gt_offset [of p q] by simp
    with Cons False show ?thesis by (auto simp: set_insert_by)
  qed
qed

lemma sort_by_offset_sorted:
  "sorted_wrt (\<lambda>a b. offset a \<le> offset b) (sort_by compare_points ps)"
  by (induction ps) (auto intro: insert_by_offset_sorted)

lemma separated_snoc:
  "separated (rs @ [r]) \<longleftrightarrow>
   separated rs \<and> start r < end' r \<and> (\<forall>q\<in>set rs. end' q < start r)"
  by (auto simp: separated_def sorted_wrt_append)

text \<open>The three ways one turn of the loop leaves the results.\<close>

lemma record_segment_cases:
  obtains (skip) "record_segment st rs lo p = rs"
  | (extend) ys y where "rs = ys @ [y]" "end' y = lo" "lo < offset p"
      "record_segment st rs lo p = ys @ [y\<lparr>end' := offset p\<rparr>]"
  | (push) "lo < offset p" "rs = [] \<or> end' (last rs) \<noteq> lo"
      "record_segment st rs lo p = rs @ [\<lparr>start = lo, end' = offset p\<rparr>]"
proof (cases "st \<noteq> [] \<and> lo < offset p \<and> last st > 0")
  case False
  then have "record_segment st rs lo p = rs" by (auto simp: record_segment_def)
  then show ?thesis by (rule skip)
next
  case c: True
  show ?thesis
  proof (cases "rs \<noteq> [] \<and> end' (last rs) = lo")
    case True
    then obtain ys y where rs: "rs = ys @ [y]" by (metis rev_exhaust)
    with True c have "record_segment st rs lo p = ys @ [y\<lparr>end' := offset p\<rparr>]"
      by (simp add: record_segment_def)
    with rs True c show ?thesis by (intro extend [of ys y]) auto
  next
    case False
    with c have "record_segment st rs lo p = rs @ [\<lparr>start = lo, end' = offset p\<rparr>]"
      by (auto simp: record_segment_def)
    with False c show ?thesis by (intro push) auto
  qed
qed

lemma separated_below:
  assumes "separated rs" "\<forall>r\<in>set rs. end' r \<le> lo" "rs = [] \<or> end' (last rs) \<noteq> lo"
  shows "\<forall>r\<in>set rs. end' r < lo"
proof (cases rs rule: rev_cases)
  case Nil
  then show ?thesis by simp
next
  case (snoc ys y)
  with assms show ?thesis by (fastforce simp: separated_snoc)
qed

lemma record_segment_separated:
  assumes "separated results" "\<forall>r\<in>set results. end' r \<le> lastOffset"
  shows "separated (record_segment st results lastOffset p)"
proof (cases rule: record_segment_cases [where st=st and rs=results and lo=lastOffset and p=p])
  case skip
  with assms show ?thesis by simp
next
  case (extend ys y)
  with assms show ?thesis by (auto simp: separated_snoc)
next
  case push
  with assms separated_below [OF assms push(2)] show ?thesis by (simp add: separated_snoc)
qed

lemma scan_separated:
  "sorted_wrt (\<lambda>a b. offset a \<le> offset b) ps \<Longrightarrow> separated results \<Longrightarrow>
   \<forall>r\<in>set results. end' r \<le> lastOffset \<Longrightarrow>
   \<forall>r\<in>set results. \<forall>p\<in>set ps. end' r \<le> offset p \<Longrightarrow>
   separated (scan st results lastOffset ps)"
proof (induction ps arbitrary: st results lastOffset)
  case Nil
  then show ?case by simp
next
  case (Cons p ps)
  let ?rs = "record_segment st results lastOffset p"
  have sep: "separated ?rs" using Cons.prems(2,3) by (rule record_segment_separated)
  have "\<forall>r\<in>set results. end' r \<le> offset p" using Cons.prems(4) by simp
  then have ends: "\<forall>r\<in>set ?rs. end' r \<le> offset p"
    by (cases rule: record_segment_cases [where st=st and rs=results and lo=lastOffset and p=p])
      fastforce+
  have "\<forall>r\<in>set ?rs. \<forall>q\<in>set ps. end' r \<le> offset q"
    using ends Cons.prems(1) by fastforce
  with Cons.IH [of ?rs "offset p"] sep ends Cons.prems(1) show ?case by simp
qed

lemma separated_filter: "separated rs \<Longrightarrow> separated (filter P rs)"
  by (induction rs) (auto simp: separated_def)

lemma convertToDisjointRanges_separated: "separated (convertToDisjointRanges rs)"
  unfolding convertToDisjointRanges_def
  by (intro separated_filter scan_separated sort_by_offset_sorted) (simp_all add: separated_def)

lemma separated_disjoint_sorted:
  "separated xs \<Longrightarrow>
   sorted_wrt disjoint_ranges xs \<and> sorted_wrt (\<lambda>a b. start a < start b) xs"
  by (induction xs) (fastforce simp: separated_def disjoint_ranges_def list_all_iff)+

text \<open>
  C3: for every input, the output ranges of the reducer are pairwise disjoint, sorted
  ascending by start offset, and each has width at least 2.
\<close>

theorem convertToDisjointRanges_disjoint_sorted:
  "sorted_wrt disjoint_ranges (convertToDisjointRanges rs)
   \<and> sorted_wrt (\<lambda>a b. start a < start b) (convertToDisjointRanges rs)
   \<and> list_all (\<lambda>r. 2 \<le> end' r - start r) (convertToDisjointRanges rs)"
proof -
  have "list_all (\<lambda>r. 2 \<le> end' r - start r) (convertToDisjointRanges rs)"
    by (auto simp: convertToDisjointRanges_def list_all_iff)
  with separated_disjoint_sorted [OF convertToDisjointRanges_separated [of rs]]
  show ?thesis by blast
qed

theorem convertToDisjointRanges_disjoint_sorted_witness:
  "convertToDisjointRanges [\<lparr>startOffset = 0, endOffset = 10, count = 1\<rparr>,
                            \<lparr>startOffset = 3, endOffset = 6, count = 0\<rparr>,
                            \<lparr>startOffset = 8, endOffset = 9, count = 0\<rparr>]
     = [\<lparr>start = 0, end' = 3\<rparr>, \<lparr>start = 6, end' = 8\<rparr>]
   \<and> sorted_wrt disjoint_ranges [\<lparr>start = 0, end' = 3\<rparr>, \<lparr>start = 6, end' = 8\<rparr>]
   \<and> sorted_wrt (\<lambda>a b. start a < start b) [\<lparr>start = 0, end' = 3\<rparr>, \<lparr>start = 6, end' = 8\<rparr>]
   \<and> list_all (\<lambda>r. 2 \<le> end' r - start r) [\<lparr>start = 0, end' = 3\<rparr>, \<lparr>start = 6, end' = 8\<rparr>]"
proof -
  have ex: "convertToDisjointRanges [\<lparr>startOffset = 0, endOffset = 10, count = 1\<rparr>,
                            \<lparr>startOffset = 3, endOffset = 6, count = 0\<rparr>,
                            \<lparr>startOffset = 8, endOffset = 9, count = 0\<rparr>]
     = [\<lparr>start = 0, end' = 3\<rparr>, \<lparr>start = 6, end' = 8\<rparr>]"
    by (simp add: convertToDisjointRanges_def compare_points_def record_segment_def
        update_stack_def)
  show ?thesis
    using convertToDisjointRanges_disjoint_sorted
      [of "[\<lparr>startOffset = 0, endOffset = 10, count = 1\<rparr>,
            \<lparr>startOffset = 3, endOffset = 6, count = 0\<rparr>,
            \<lparr>startOffset = 8, endOffset = 9, count = 0\<rparr>]"]
    unfolding ex by simp
qed

section \<open>The reducer on its own output\<close>

lemma as_counted_simps [simp]:
  "startOffset (as_counted r) = start r" "endOffset (as_counted r) = end' r"
  "count (as_counted r) = 1"
  by (simp_all add: as_counted_def)

lemma insert_by_front:
  "\<forall>q\<in>set ps. offset p < offset q \<Longrightarrow> insert_by compare_points p ps = p # ps"
  by (cases ps) (auto simp: compare_points_def)

lemma sort_by_increasing:
  "sorted_wrt (\<lambda>a b. offset a < offset b) ps \<Longrightarrow> sort_by compare_points ps = ps"
  by (induction ps) (simp_all add: insert_by_front)

lemma make_points_counted_offsets:
  "p \<in> set (make_points (map as_counted ys)) \<Longrightarrow>
   \<exists>y\<in>set ys. offset p = start y \<or> offset p = end' y"
  by (induction ys) auto

lemma make_points_counted_increasing:
  "separated ys \<Longrightarrow>
   sorted_wrt (\<lambda>a b. offset a < offset b) (make_points (map as_counted ys))"
proof (induction ys)
  case Nil
  then show ?case by simp
next
  case (Cons y ys)
  from Cons.prems have sep: "separated ys" and y: "start y < end' y"
    and after: "\<forall>z\<in>set ys. end' y < start z \<and> start z < end' z"
    by (auto simp: separated_def list_all_iff)
  have "end' y < offset p" if "p \<in> set (make_points (map as_counted ys))" for p
    using make_points_counted_offsets [OF that] after by force
  with Cons.IH [OF sep] y show ?case
    by fastforce
qed

lemma scan_counted:
  "separated ys \<Longrightarrow> (\<forall>r\<in>set results. \<forall>y\<in>set ys. end' r < start y) \<Longrightarrow>
   scan [] results lastOffset (make_points (map as_counted ys)) = results @ ys"
proof (induction ys arbitrary: results lastOffset)
  case Nil
  then show ?case by simp
next
  case (Cons y ys)
  from Cons.prems(1) have sep: "separated ys" and y: "start y < end' y"
    and after: "\<forall>z\<in>set ys. end' y < start z"
    by (auto simp: separated_def list_all_iff)
  have fresh: "results = [] \<or> end' (last results) \<noteq> start y"
    using Cons.prems(2) by (cases results rule: rev_cases) auto
  have step: "record_segment [1] results (start y)
       \<lparr>offset = end' y, type = 1, range = as_counted y\<rparr> = results @ [y]"
    using y fresh by (auto simp: record_segment_def)
  have next_ok: "\<forall>r\<in>set (results @ [y]). \<forall>z\<in>set ys. end' r < start z"
    using Cons.prems(2) after by auto
  have first: "record_segment [] results lastOffset
       \<lparr>offset = start y, type = 0, range = as_counted y\<rparr> = results"
    by (simp add: record_segment_def)
  from Cons.IH [OF sep next_ok, of "end' y"] step first show ?case
    by (simp add: update_stack_def)
qed

lemma convertToDisjointRanges_counted:
  assumes "separated ys" "list_all (\<lambda>r. 1 < end' r - start r) ys"
  shows "convertToDisjointRanges (map as_counted ys) = ys"
proof -
  have "sort_by compare_points (make_points (map as_counted ys))
      = make_points (map as_counted ys)"
    using assms(1) by (intro sort_by_increasing make_points_counted_increasing)
  moreover have "scan [] [] 0 (make_points (map as_counted ys)) = ys"
    using scan_counted [OF assms(1), of "[]" 0] by simp
  moreover have "filter (\<lambda>r. 1 < end' r - start r) ys = ys"
    using assms(2) by (simp add: list_all_iff)
  ultimately show ?thesis by (simp add: convertToDisjointRanges_def)
qed

text \<open>
  C5: for every input, the reducer applied to its own output, each output range taken
  with count 1, gives that output again.
\<close>

theorem convertToDisjointRanges_idempotent:
  "convertToDisjointRanges (map as_counted (convertToDisjointRanges rs))
     = convertToDisjointRanges rs"
proof -
  have "list_all (\<lambda>r. 1 < end' r - start r) (convertToDisjointRanges rs)"
    by (simp add: convertToDisjointRanges_def list_all_iff)
  with convertToDisjointRanges_separated [of rs] show ?thesis
    by (rule convertToDisjointRanges_counted)
qed

theorem convertToDisjointRanges_idempotent_witness:
  "convertToDisjointRanges [\<lparr>startOffset = 0, endOffset = 10, count = 1\<rparr>,
                            \<lparr>startOffset = 3, endOffset = 6, count = 0\<rparr>]
     = [\<lparr>start = 0, end' = 3\<rparr>, \<lparr>start = 6, end' = 10\<rparr>]
   \<and> convertToDisjointRanges [\<lparr>startOffset = 0, endOffset = 3, count = 1\<rparr>,
                              \<lparr>startOffset = 6, endOffset = 10, count = 1\<rparr>]
     = [\<lparr>start = 0, end' = 3\<rparr>, \<lparr>start = 6, end' = 10\<rparr>]"
proof -
  have ex: "convertToDisjointRanges [\<lparr>startOffset = 0, endOffset = 10, count = 1\<rparr>,
                            \<lparr>startOffset = 3, endOffset = 6, count = 0\<rparr>]
     = [\<lparr>start = 0, end' = 3\<rparr>, \<lparr>start = 6, end' = 10\<rparr>]"
    by (simp add: convertToDisjointRanges_def compare_points_def record_segment_def
        update_stack_def)
  from convertToDisjointRanges_idempotent
     [of "[\<lparr>startOffset = 0, endOffset = 10, count = 1\<rparr>,
           \<lparr>startOffset = 3, endOffset = 6, count = 0\<rparr>]"]
  show ?thesis unfolding ex by (simp add: as_counted_def)
qed

section \<open>The sweep of the reducer\<close>

text \<open>
  The comparator is transitive and total, so it orders the points consistently and the
  result of the stable sort is the same whatever stable algorithm ran; the sorted points
  are in the order of the comparator and are the points that went in.
\<close>

lemma compare_points_trans:
  "compare_points a b \<le> 0 \<Longrightarrow> compare_points b c \<le> 0 \<Longrightarrow> compare_points a c \<le> 0"
  by (auto simp: compare_points_def Let_def split: if_splits)

lemma compare_points_total: "0 < compare_points a b \<Longrightarrow> compare_points b a \<le> 0"
  by (auto simp: compare_points_def Let_def split: if_splits)

lemma insert_by_sorted:
  "sorted_wrt (\<lambda>a b. compare_points a b \<le> 0) ps \<Longrightarrow>
   sorted_wrt (\<lambda>a b. compare_points a b \<le> 0) (insert_by compare_points p ps)"
proof (induction ps)
  case Nil
  then show ?case by simp
next
  case (Cons q qs)
  show ?case
  proof (cases "compare_points p q \<le> 0")
    case True
    with Cons.prems show ?thesis by (auto intro: compare_points_trans)
  next
    case False
    then have "compare_points q p \<le> 0" using compare_points_total [of p q] by simp
    with Cons False show ?thesis by (auto simp: set_insert_by)
  qed
qed

lemma sort_by_sorted:
  "sorted_wrt (\<lambda>a b. compare_points a b \<le> 0) (sort_by compare_points ps)"
  by (induction ps) (auto intro: insert_by_sorted)

lemma mset_insert_by: "mset (insert_by cmp x xs) = add_mset x (mset xs)"
  by (induction xs) auto

lemma mset_sort_by: "mset (sort_by cmp xs) = mset xs"
  by (induction xs) (auto simp: mset_insert_by)

lemma starts_simps [simp]:
  "starts [] = {#}"
  "starts (p # ps) = (if type p = 0 then add_mset (interval_of (range p)) (starts ps) else starts ps)"
  "starts (ps @ qs) = starts ps + starts qs"
  by (simp_all add: starts_def)

lemma ends_simps [simp]:
  "ends [] = {#}"
  "ends (p # ps) = (if type p \<noteq> 0 then add_mset (interval_of (range p)) (ends ps) else ends ps)"
  "ends (ps @ qs) = ends ps + ends qs"
  by (simp_all add: ends_def)

lemma starts_mset_cong: "mset ps = mset qs \<Longrightarrow> starts ps = starts qs"
  unfolding starts_def by (metis mset_filter mset_map)

lemma ends_mset_cong: "mset ps = mset qs \<Longrightarrow> ends ps = ends qs"
  unfolding ends_def by (metis mset_filter mset_map)

lemma starts_make_points: "starts (make_points rs) = mset (map interval_of rs)"
  by (induction rs) simp_all

lemma ends_make_points: "ends (make_points rs) = mset (map interval_of rs)"
  by (induction rs) simp_all

lemma point_of_make_points: "p \<in> set (make_points rs) \<Longrightarrow> point_of rs p"
  by (induction rs) (auto simp: point_of_def)

lemma make_points_has:
  "q \<in> set rs \<Longrightarrow>
   \<lparr>offset = startOffset q, type = 0, range = q\<rparr> \<in> set (make_points rs)
   \<and> \<lparr>offset = endOffset q, type = 1, range = q\<rparr> \<in> set (make_points rs)"
  by (induction rs) auto

lemma starts_member:
  "g \<in># starts ps \<Longrightarrow> \<exists>p\<in>set ps. type p = 0 \<and> interval_of (range p) = g"
  by (induction ps) (auto split: if_splits)

lemma ends_member:
  "g \<in># ends ps \<Longrightarrow> \<exists>p\<in>set ps. type p \<noteq> 0 \<and> interval_of (range p) = g"
  by (induction ps) (auto split: if_splits)

lemma in_starts: "p \<in> set ps \<Longrightarrow> type p = 0 \<Longrightarrow> interval_of (range p) \<in># starts ps"
  by (induction ps) auto

lemma in_ends: "p \<in> set ps \<Longrightarrow> type p \<noteq> 0 \<Longrightarrow> interval_of (range p) \<in># ends ps"
  by (induction ps) auto

text \<open>
  A range on the stack was opened by a point already handled and is closed by a point
  still to come.
\<close>

lemma open_started:
  assumes "mset G + ends pre = starts pre" "g \<in> set G"
  shows "\<exists>s\<in>set pre. type s = 0 \<and> interval_of (range s) = g"
proof -
  from assms(2) have "g \<in># mset G + ends pre" by simp
  with assms(1) have "g \<in># starts pre" by simp
  then show ?thesis by (rule starts_member)
qed

lemma open_unfinished:
  assumes "mset G + starts ps = ends ps" "g \<in> set G"
  shows "\<exists>e\<in>set ps. type e \<noteq> 0 \<and> interval_of (range e) = g"
proof -
  from assms(2) have "g \<in># mset G + starts ps" by simp
  with assms(1) have "g \<in># ends ps" by simp
  then show ?thesis by (rule ends_member)
qed

lemma le_start_start:
  "compare_points s p \<le> 0 \<Longrightarrow> type s = 0 \<Longrightarrow> type p = 0 \<Longrightarrow>
   offset s \<le> offset p
   \<and> (offset s = offset p \<longrightarrow>
        endOffset (range p) - startOffset (range p) \<le> endOffset (range s) - startOffset (range s))"
  by (auto simp: compare_points_def Let_def split: if_splits)

lemma le_start_end:
  "compare_points p e \<le> 0 \<Longrightarrow> type p = 0 \<Longrightarrow> type e = 1 \<Longrightarrow> offset p < offset e"
  by (auto simp: compare_points_def Let_def split: if_splits)

lemma le_end_end:
  "compare_points p e \<le> 0 \<Longrightarrow> type p = 1 \<Longrightarrow> type e = 1 \<Longrightarrow>
   offset p \<le> offset e
   \<and> (offset p = offset e \<longrightarrow>
        endOffset (range p) - startOffset (range p) \<le> endOffset (range e) - startOffset (range e))"
  by (auto simp: compare_points_def Let_def split: if_splits)

lemma well_nestedD:
  assumes "well_nested rs" "r \<in> set rs" "q \<in> set rs"
  shows "startOffset r < endOffset r"
    and "inside r q \<or> inside q r \<or> endOffset r \<le> startOffset q \<or> endOffset q \<le> startOffset r"
    and "startOffset r = startOffset q \<Longrightarrow> endOffset r = endOffset q \<Longrightarrow>
         interval_of r = interval_of q"
proof -
  from assms(1,2) have r: "startOffset r < endOffset r \<and>
        (\<forall>q\<in>set rs. (inside r q \<or> inside q r
                       \<or> endOffset r \<le> startOffset q \<or> endOffset q \<le> startOffset r)
                     \<and> (startOffset r = startOffset q \<and> endOffset r = endOffset q
                          \<longrightarrow> (0 < count r) = (0 < count q)))"
    unfolding well_nested_def list_all_iff by blast
  then show "startOffset r < endOffset r" by blast
  from r assms(3)
  show "inside r q \<or> inside q r \<or> endOffset r \<le> startOffset q \<or> endOffset q \<le> startOffset r"
    by blast
  from r assms(3) have "startOffset r = startOffset q \<and> endOffset r = endOffset q
                          \<longrightarrow> (0 < count r) = (0 < count q)" by blast
  then show "startOffset r = startOffset q \<Longrightarrow> endOffset r = endOffset q \<Longrightarrow>
         interval_of r = interval_of q"
    by (simp add: interval_of_def)
qed

lemma interval_of_simps [simp]:
  "fst (interval_of r) = startOffset r" "fst (snd (interval_of r)) = endOffset r"
  "snd (snd (interval_of r)) = (0 < count r)"
  by (simp_all add: interval_of_def)

lemma interval_of_eqD:
  "interval_of r = interval_of q \<Longrightarrow>
   startOffset r = startOffset q \<and> endOffset r = endOffset q \<and> (0 < count r) = (0 < count q)"
  by (simp add: interval_of_def)

text \<open>Pushing keeps the chain.\<close>

lemma push_chain:
  assumes wn: "well_nested rs"
    and before: "\<forall>q\<in>set pre. compare_points q p \<le> 0"
    and after: "\<forall>q\<in>set ps. compare_points p q \<le> 0"
    and pts: "\<forall>q\<in>set pre \<union> set (p # ps). point_of rs q"
    and M: "mset G + ends pre = starts pre"
    and M': "mset G + starts (p # ps) = ends (p # ps)"
    and p: "type p = 0"
    and g: "g \<in> set G"
  shows "fst g \<le> startOffset (range p) \<and> endOffset (range p) \<le> fst (snd g)"
proof -
  from open_started [OF M g] obtain s where s: "s \<in> set pre" "type s = 0"
    "interval_of (range s) = g" by blast
  from open_unfinished [OF M' g] obtain e where e: "e \<in> set (p # ps)" "type e \<noteq> 0"
    "interval_of (range e) = g" by blast
  from e p have eps: "e \<in> set ps" by auto
  from pts s e have rs: "range s \<in> set rs" and re: "range e \<in> set rs"
    and so: "offset s = startOffset (range s)" and eo: "offset e = endOffset (range e)"
    and te: "type e = 1"
    by (auto simp: point_of_def)
  from pts p have rp: "range p \<in> set rs" and po: "offset p = startOffset (range p)"
    by (auto simp: point_of_def)
  from s(3) have "fst g = startOffset (range s)" "fst (snd g) = endOffset (range s)"
    by auto
  moreover from e(3) have "fst (snd g) = endOffset (range e)" by auto
  ultimately have same: "startOffset (range s) = fst g" "endOffset (range s) = fst (snd g)"
    "endOffset (range e) = fst (snd g)"
    by simp_all
  from le_start_start [OF before [rule_format, OF s(1)] s(2) p] so po
  have a: "startOffset (range s) \<le> startOffset (range p)"
    and b: "startOffset (range s) = startOffset (range p) \<Longrightarrow>
       endOffset (range p) - startOffset (range p) \<le> endOffset (range s) - startOffset (range s)"
    by simp_all
  from le_start_end [OF after [rule_format, OF eps] p te] po eo
  have c: "startOffset (range p) < endOffset (range e)" by simp
  from well_nestedD(1) [OF wn rp rp] have d: "startOffset (range p) < endOffset (range p)" .
  from well_nestedD(2) [OF wn rs rp] a b c d same show ?thesis
    by (auto simp: inside_def)
qed

text \<open>An end point closes the range on top of the stack.\<close>

lemma pop_top:
  assumes wn: "well_nested rs"
    and after: "\<forall>q\<in>set ps. compare_points p q \<le> 0"
    and pts: "\<forall>q\<in>set (p # ps). point_of rs q"
    and ch: "chain G"
    and M': "mset G + starts (p # ps) = ends (p # ps)"
    and p: "type p \<noteq> 0"
  shows "G \<noteq> [] \<and> last G = interval_of (range p)"
proof -
  let ?a = "interval_of (range p)"
  from pts p have rp: "range p \<in> set rs" and po: "offset p = endOffset (range p)"
    and tp: "type p = 1"
    by (auto simp: point_of_def)
  from well_nestedD(1) [OF wn rp rp] have wf: "startOffset (range p) < endOffset (range p)" .
  have "?a \<notin># starts ps"
  proof
    assume "?a \<in># starts ps"
    then obtain s where s: "s \<in> set ps" "type s = 0" "interval_of (range s) = ?a"
      using starts_member by blast
    from pts s have "offset s = startOffset (range s)" by (auto simp: point_of_def)
    with interval_of_eqD [OF s(3)] have "offset s = startOffset (range p)" by simp
    moreover from after s(1) have "offset p \<le> offset s"
      by (auto dest: compare_points_le_offset)
    ultimately show False using po wf by simp
  qed
  moreover from p M' have "?a \<in># mset G + starts ps" by simp
  ultimately have inG: "?a \<in> set G" by auto
  then have ne: "G \<noteq> []" by auto
  then obtain G0 t where G: "G = G0 @ [t]" by (metis rev_exhaust)
  have "t = ?a"
  proof (rule ccontr)
    assume neq: "t \<noteq> ?a"
    with inG G have "?a \<in> set G0" by auto
    with ch G have nest: "startOffset (range p) \<le> fst t" "fst (snd t) \<le> endOffset (range p)"
      by (auto simp: chain_def sorted_wrt_append)
    from open_unfinished [OF M', of t] G obtain e where e: "e \<in> set (p # ps)" "type e \<noteq> 0"
      "interval_of (range e) = t" by auto
    with neq have eps: "e \<in> set ps" by auto
    from pts e have re: "range e \<in> set rs" and eo: "offset e = endOffset (range e)"
      and te: "type e = 1"
      by (auto simp: point_of_def)
    from e(3) have t: "fst t = startOffset (range e)" "fst (snd t) = endOffset (range e)"
      by auto
    from le_end_end [OF after [rule_format, OF eps] tp te] po eo nest t
    have "startOffset (range p) = startOffset (range e)"
      "endOffset (range p) = endOffset (range e)"
      by auto
    from well_nestedD(3) [OF wn rp re this] e(3) neq show False by simp
  qed
  with ne G show ?thesis by simp
qed

lemma chain_last:
  assumes "chain G" "g \<in> set G"
  shows "g = last G \<or> (fst g \<le> fst (last G) \<and> fst (snd (last G)) \<le> fst (snd g))"
proof -
  from assms(2) have "G \<noteq> []" by auto
  then obtain G0 t where G: "G = G0 @ [t]" by (metis rev_exhaust)
  with assms show ?thesis by (auto simp: chain_def sorted_wrt_append)
qed

lemma chain_butlast: "chain G \<Longrightarrow> chain (butlast G)"
proof (cases G rule: rev_cases)
  case Nil
  then show ?thesis by (simp add: chain_def)
next
  case (snoc G0 t)
  assume "chain G"
  with snoc show ?thesis by (simp add: chain_def sorted_wrt_append)
qed

text \<open>
  One turn of the loop keeps the invariant: a start point pushes its range, an end point
  pops the range it closes.
\<close>

lemma sweep_inv_step:
  assumes wn: "well_nested rs" and inv: "sweep_inv rs pre (p # ps) lo st G"
  shows "sweep_inv rs (pre @ [p]) ps (offset p) (update_stack st p)
           (if type p = 0 then G @ [interval_of (range p)] else butlast G)"
proof -
  from inv have before: "\<forall>q\<in>set pre. \<forall>p'\<in>set (p # ps). compare_points q p' \<le> 0"
    and sorted: "sorted_wrt (\<lambda>a b. compare_points a b \<le> 0) (p # ps)"
    and pts: "\<forall>q\<in>set pre \<union> set (p # ps). point_of rs q"
    and has: "\<forall>q\<in>set rs. \<lparr>offset = startOffset q, type = 0, range = q\<rparr> \<in> set pre \<union> set (p # ps)
                   \<and> \<lparr>offset = endOffset q, type = 1, range = q\<rparr> \<in> set pre \<union> set (p # ps)"
    and st: "map (\<lambda>c. 0 < c) st = map (\<lambda>g. snd (snd g)) G"
    and ch: "chain G"
    and M: "mset G + ends pre = starts pre"
    and M': "mset G + starts (p # ps) = ends (p # ps)"
    unfolding sweep_inv_def by blast+
  from sorted have after: "\<forall>q\<in>set ps. compare_points p q \<le> 0"
    and sorted': "sorted_wrt (\<lambda>a b. compare_points a b \<le> 0) ps"
    by simp_all
  have 1: "\<forall>q\<in>set (pre @ [p]). \<forall>p'\<in>set ps. compare_points q p' \<le> 0"
    using before after by auto
  have 3: "\<forall>q\<in>set (pre @ [p]) \<union> set ps. point_of rs q" using pts by auto
  have 4: "\<forall>q\<in>set rs. \<lparr>offset = startOffset q, type = 0, range = q\<rparr> \<in> set (pre @ [p]) \<union> set ps
                   \<and> \<lparr>offset = endOffset q, type = 1, range = q\<rparr> \<in> set (pre @ [p]) \<union> set ps"
    using has by auto
  have 5: "\<forall>q\<in>set (pre @ [p]). offset q \<le> offset p"
    using before by (auto dest: compare_points_le_offset)
  have 6: "\<forall>p'\<in>set ps. offset p \<le> offset p'"
    using after by (auto dest: compare_points_le_offset)
  show ?thesis
  proof (cases "type p = 0")
    case True
    have 7: "map (\<lambda>c. 0 < c) (update_stack st p)
        = map (\<lambda>g. snd (snd g)) (G @ [interval_of (range p)])"
      using True st by (simp add: update_stack_def)
    have "\<forall>g\<in>set G. fst g \<le> startOffset (range p) \<and> endOffset (range p) \<le> fst (snd g)"
      using push_chain [OF wn _ after pts M M' True] before by simp
    with ch have 8: "chain (G @ [interval_of (range p)])"
      by (simp add: chain_def sorted_wrt_append)
    have 9: "mset (G @ [interval_of (range p)]) + ends (pre @ [p]) = starts (pre @ [p])"
      using M True by simp
    have 10: "mset (G @ [interval_of (range p)]) + starts ps = ends ps"
      using M' True by simp
    from 1 sorted' 3 4 5 6 7 8 9 10 True show ?thesis
      unfolding sweep_inv_def by simp
  next
    case False
    from pts have pts': "\<forall>q\<in>set (p # ps). point_of rs q" by simp
    from pop_top [OF wn after pts' ch M' False]
    have ne: "G \<noteq> []" and top: "last G = interval_of (range p)" by simp_all
    then have G: "G = butlast G @ [interval_of (range p)]"
      by (metis append_butlast_last_id)
    have 7: "map (\<lambda>c. 0 < c) (update_stack st p) = map (\<lambda>g. snd (snd g)) (butlast G)"
      using False st by (simp add: update_stack_def map_butlast)
    have 8: "chain (butlast G)" using ch by (rule chain_butlast)
    have mG: "mset G = add_mset (interval_of (range p)) (mset (butlast G))"
      by (subst G) simp
    have 9: "mset (butlast G) + ends (pre @ [p]) = starts (pre @ [p])"
      using M False mG by simp
    have 10: "mset (butlast G) + starts ps = ends ps"
      using M' False mG by simp
    from 1 sorted' 3 4 5 6 7 8 9 10 False show ?thesis
      unfolding sweep_inv_def by simp
  qed
qed

lemma used_at_iff:
  "used_at rs x \<longleftrightarrow>
   (\<exists>r\<in>set rs. covers r x \<and> 0 < count r \<and> (\<forall>q\<in>set rs. covers q x \<longrightarrow> inside r q))"
  by (simp add: used_at_def list_ex_iff list_all_iff)

text \<open>
  Between the last offset and the next point, the positions are used exactly when the
  stack is not empty and the count on top is positive.
\<close>

lemma sweep_boundary:
  assumes wn: "well_nested rs" and inv: "sweep_inv rs pre (p # ps) lo st G"
    and x: "lo \<le> x" "x < offset p"
  shows "used_at rs x \<longleftrightarrow> st \<noteq> [] \<and> 0 < last st"
proof -
  from inv have sorted: "sorted_wrt (\<lambda>a b. compare_points a b \<le> 0) (p # ps)"
    and pts: "\<forall>q\<in>set pre \<union> set (p # ps). point_of rs q"
    and has: "\<forall>q\<in>set rs. \<lparr>offset = startOffset q, type = 0, range = q\<rparr> \<in> set pre \<union> set (p # ps)"
    and low: "\<forall>q\<in>set pre. offset q \<le> lo"
    and st: "map (\<lambda>c. 0 < c) st = map (\<lambda>g. snd (snd g)) G"
    and ch: "chain G"
    and M: "mset G + ends pre = starts pre"
    and M': "mset G + starts (p # ps) = ends (p # ps)"
    unfolding sweep_inv_def by blast+
  from sorted have high: "\<forall>q\<in>set (p # ps). offset p \<le> offset q"
    by (auto dest: compare_points_le_offset)
  have open_range: "\<exists>r\<in>set rs. interval_of r = g \<and> covers r x" if "g \<in> set G" for g
  proof -
    from open_started [OF M that] obtain s where s: "s \<in> set pre" "type s = 0"
      "interval_of (range s) = g" by blast
    from open_unfinished [OF M' that] obtain e where e: "e \<in> set (p # ps)" "type e \<noteq> 0"
      "interval_of (range e) = g" by blast
    from pts s e have "range s \<in> set rs" "offset s = startOffset (range s)"
      "offset e = endOffset (range e)"
      by (auto simp: point_of_def)
    moreover from s(3) e(3) have "endOffset (range e) = endOffset (range s)"
      using interval_of_eqD [of "range e" "range s"] by simp
    moreover from low s(1) have "offset s \<le> lo" by simp
    moreover from high e(1) have "offset p \<le> offset e" by blast
    ultimately show ?thesis using x s(3) by (auto simp: covers_def)
  qed
  have all_open: "interval_of q \<in> set G" if "q \<in> set rs" "covers q x" for q
  proof -
    let ?s = "\<lparr>offset = startOffset q, type = 0, range = q\<rparr>"
    from has that(1) have "?s \<in> set pre \<union> set (p # ps)" by simp
    moreover have "?s \<notin> set (p # ps)"
    proof
      assume "?s \<in> set (p # ps)"
      with high have "offset p \<le> offset ?s" by blast
      with that(2) x show False by (simp add: covers_def)
    qed
    ultimately have "?s \<in> set pre" by simp
    from in_starts [OF this] have "interval_of q \<in># starts pre" by simp
    with M have "interval_of q \<in># mset G + ends pre" by simp
    moreover have "interval_of q \<notin># ends pre"
    proof
      assume "interval_of q \<in># ends pre"
      then obtain e where e: "e \<in> set pre" "type e \<noteq> 0" "interval_of (range e) = interval_of q"
        using ends_member by blast
      from pts e have "offset e = endOffset (range e)" by (auto simp: point_of_def)
      with interval_of_eqD [OF e(3)] have "offset e = endOffset q" by simp
      with low e(1) that(2) x show False by (auto simp: covers_def)
    qed
    ultimately show ?thesis by auto
  qed
  have top: "(0 < last st) = snd (snd (last G))" if "G \<noteq> []"
  proof -
    from that st have "st \<noteq> []" by auto
    then have "last (map (\<lambda>c. 0 < c) st) = (0 < last st)" by (simp add: last_map)
    moreover from that have "last (map (\<lambda>g. snd (snd g)) G) = snd (snd (last G))"
      by (simp add: last_map)
    ultimately show ?thesis using st by simp
  qed
  have empty: "st = [] \<longleftrightarrow> G = []" using st by (metis map_is_Nil_conv)
  show ?thesis
  proof
    assume "used_at rs x"
    then obtain r where r: "r \<in> set rs" "covers r x" "0 < count r"
      "\<forall>q\<in>set rs. covers q x \<longrightarrow> inside r q"
      unfolding used_at_iff by blast
    from all_open [OF r(1,2)] have rG: "interval_of r \<in> set G" .
    then have ne: "G \<noteq> []" by auto
    then have "last G \<in> set G" by simp
    from open_range [OF this] obtain t where t: "t \<in> set rs" "interval_of t = last G"
      "covers t x" by blast
    with r(4) have "inside r t" by blast
    moreover from chain_last [OF ch rG]
    have "interval_of r = interval_of t
        \<or> (startOffset r \<le> startOffset t \<and> endOffset t \<le> endOffset r)"
      unfolding t(2) [symmetric] by simp
    ultimately have "startOffset r = startOffset t" "endOffset r = endOffset t"
      using interval_of_eqD [of r t] by (auto simp: inside_def)
    from well_nestedD(3) [OF wn r(1) t(1) this] t(2) have "last G = interval_of r" by simp
    with top [OF ne] r(3) ne empty show "st \<noteq> [] \<and> 0 < last st" by simp
  next
    assume a: "st \<noteq> [] \<and> 0 < last st"
    with empty have ne: "G \<noteq> []" by simp
    then have "last G \<in> set G" by simp
    from open_range [OF this] obtain t where t: "t \<in> set rs" "interval_of t = last G"
      "covers t x" by blast
    from top [OF ne] a t(2) have pos: "0 < count t"
      by (metis interval_of_simps(3))
    have "inside t q" if "q \<in> set rs" "covers q x" for q
    proof -
      from chain_last [OF ch all_open [OF that]]
      have "interval_of q = interval_of t
        \<or> (startOffset q \<le> startOffset t \<and> endOffset t \<le> endOffset q)"
        unfolding t(2) [symmetric] by simp
      then show ?thesis using interval_of_eqD [of q t] by (auto simp: inside_def)
    qed
    with t pos show "used_at rs x" unfolding used_at_iff by blast
  qed
qed

lemma positions_simps [simp]:
  "positions [] = {}"
  "positions (us @ vs) = positions us \<union> positions vs"
  "positions [u] = {start u ..< end' u}"
  by (auto simp: positions_def within_def)

lemma record_segment_positions:
  assumes "separated results" "\<forall>u\<in>set results. end' u \<le> lo"
  shows "positions (record_segment st results lo p)
       = positions results
         \<union> (if st \<noteq> [] \<and> lo < offset p \<and> 0 < last st then {lo ..< offset p} else {})"
proof (cases "st \<noteq> [] \<and> lo < offset p \<and> 0 < last st")
  case False
  then have "record_segment st results lo p = results" by (auto simp: record_segment_def)
  with False show ?thesis by auto
next
  case c: True
  show ?thesis
  proof (cases "results \<noteq> [] \<and> end' (last results) = lo")
    case True
    then obtain ys y where rs: "results = ys @ [y]" by (metis rev_exhaust)
    with True c have eq: "record_segment st results lo p = ys @ [y\<lparr>end' := offset p\<rparr>]"
      by (simp add: record_segment_def)
    from rs assms(1) have "start y < end' y" by (simp add: separated_snoc)
    with True rs c have "{start y ..< offset p} = {start y ..< end' y} \<union> {lo ..< offset p}"
      by auto
    moreover have "positions (record_segment st results lo p)
        = positions ys \<union> {start y ..< offset p}"
      unfolding eq by simp
    moreover have "positions results = positions ys \<union> {start y ..< end' y}"
      unfolding rs by simp
    ultimately show ?thesis using c by (simp add: Un_assoc)
  next
    case False
    with c have "record_segment st results lo p = results @ [\<lparr>start = lo, end' = offset p\<rparr>]"
      by (auto simp: record_segment_def)
    with c show ?thesis by simp
  qed
qed

lemma record_segment_ends:
  assumes "\<forall>u\<in>set results. end' u \<le> lo" "lo \<le> offset p"
  shows "\<forall>u\<in>set (record_segment st results lo p). end' u \<le> offset p"
  using assms
  by (cases rule: record_segment_cases [where st=st and rs=results and lo=lo and p=p])
    fastforce+

text \<open>
  Hence the scan adds to the results exactly the used positions from \<open>lo\<close> on.
\<close>

lemma scan_positions:
  assumes wn: "well_nested rs"
  shows "sweep_inv rs pre ps lo st G \<Longrightarrow> separated results \<Longrightarrow>
         \<forall>u\<in>set results. end' u \<le> lo \<Longrightarrow>
         positions (scan st results lo ps) = positions results \<union> {x. lo \<le> x \<and> used_at rs x}"
proof (induction ps arbitrary: pre lo st G results)
  case Nil
  have "\<not> used_at rs x" if "lo \<le> x" for x
  proof
    assume "used_at rs x"
    then obtain r where r: "r \<in> set rs" "covers r x" unfolding used_at_iff by blast
    let ?e = "\<lparr>offset = endOffset r, type = 1, range = r\<rparr>"
    from Nil.prems(1) r(1) have "?e \<in> set pre" "\<forall>q\<in>set pre. offset q \<le> lo"
      unfolding sweep_inv_def by auto
    then have "offset ?e \<le> lo" by blast
    with r(2) that show False by (simp add: covers_def)
  qed
  then show ?case by auto
next
  case (Cons p ps)
  let ?results = "record_segment st results lo p"
  let ?G = "if type p = 0 then G @ [interval_of (range p)] else butlast G"
  from Cons.prems(1) have lo: "lo \<le> offset p" unfolding sweep_inv_def by simp
  have inv: "sweep_inv rs (pre @ [p]) ps (offset p) (update_stack st p) ?G"
    using wn Cons.prems(1) by (rule sweep_inv_step)
  have sep: "separated ?results" using Cons.prems(2,3) by (rule record_segment_separated)
  have ends: "\<forall>u\<in>set ?results. end' u \<le> offset p"
    using Cons.prems(3) lo by (rule record_segment_ends)
  have "{x. lo \<le> x \<and> used_at rs x}
      = (if st \<noteq> [] \<and> lo < offset p \<and> 0 < last st then {lo ..< offset p} else {})
        \<union> {x. offset p \<le> x \<and> used_at rs x}" (is "?L = ?E \<union> ?R")
  proof (rule set_eqI)
    fix x
    show "x \<in> ?L \<longleftrightarrow> x \<in> ?E \<union> ?R"
    proof (cases "lo \<le> x \<and> x < offset p")
      case True
      with sweep_boundary [OF wn Cons.prems(1), of x]
      have "used_at rs x \<longleftrightarrow> st \<noteq> [] \<and> 0 < last st" by simp
      with True show ?thesis by auto
    next
      case False
      with lo show ?thesis by (auto split: if_splits)
    qed
  qed
  with Cons.IH [OF inv sep ends] record_segment_positions [OF Cons.prems(2,3), of st p]
  show ?case by (simp add: Un_assoc)
qed

lemma scan_empty_stack: "scan [] results lo ps = scan [] results lo' ps"
  by (cases ps) (simp_all add: record_segment_def)

lemma scan_used:
  assumes wn: "well_nested rs"
  shows "positions (scan [] [] 0 (sort_by compare_points (make_points rs))) = {x. used_at rs x}"
proof -
  let ?P = "sort_by compare_points (make_points rs)"
  define m where "m = (if ?P = [] then 0 else offset (hd ?P))"
  have sorted: "sorted_wrt (\<lambda>a b. compare_points a b \<le> 0) ?P" by (rule sort_by_sorted)
  have low: "\<forall>p\<in>set ?P. m \<le> offset p"
  proof (cases ?P)
    case Nil
    then show ?thesis by simp
  next
    case (Cons p ps)
    with sorted show ?thesis by (auto simp: m_def dest: compare_points_le_offset)
  qed
  have pts: "\<forall>p\<in>set ?P. point_of rs p"
    by (simp add: set_sort_by point_of_make_points)
  have has: "\<forall>q\<in>set rs. \<lparr>offset = startOffset q, type = 0, range = q\<rparr> \<in> set ?P
                   \<and> \<lparr>offset = endOffset q, type = 1, range = q\<rparr> \<in> set ?P"
    using make_points_has by (simp add: set_sort_by)
  have "starts ?P = ends ?P"
    using starts_mset_cong [OF mset_sort_by, of compare_points "make_points rs"]
      ends_mset_cong [OF mset_sort_by, of compare_points "make_points rs"]
    by (simp add: starts_make_points ends_make_points)
  with sorted low pts has have "sweep_inv rs [] ?P m [] []"
    unfolding sweep_inv_def by (simp add: chain_def)
  from scan_positions [OF wn this, of "[]"]
  have "positions (scan [] [] m ?P) = {x. m \<le> x \<and> used_at rs x}"
    by (simp add: separated_def)
  moreover have "m \<le> x" if "used_at rs x" for x
  proof -
    from that obtain r where r: "r \<in> set rs" "covers r x" unfolding used_at_iff by blast
    with has low have "m \<le> offset \<lparr>offset = startOffset r, type = 0, range = r\<rparr>" by blast
    with r(2) show ?thesis by (simp add: covers_def)
  qed
  ultimately have "positions (scan [] [] m ?P) = {x. used_at rs x}" by auto
  then show ?thesis using scan_empty_stack [of "[]" 0 ?P m] by simp
qed

text \<open>
  Two different ranges of a separated list lie apart.
\<close>

lemma separated_pair:
  "separated us \<Longrightarrow> u \<in> set us \<Longrightarrow> v \<in> set us \<Longrightarrow>
   u = v \<or> end' u < start v \<or> end' v < start u"
  by (induction us) (auto simp: separated_def)

lemma separated_wide: "separated us \<Longrightarrow> u \<in> set us \<Longrightarrow> start u < end' u"
  by (simp add: separated_def list_all_iff)

section \<open>The runs that the reducer reports\<close>

text \<open>
  Coverage by some range with a positive count is not what the reducer reports: the one
  position of a range of width 1 is covered and is dropped; a position under a nested
  zero-count range is covered and is carved out; and where two ranges overlap without
  nesting, positions covered by the zero-count range alone are reported.
\<close>

theorem covered_position_not_reported:
  "covered [\<lparr>startOffset = 5, endOffset = 6, count = 1\<rparr>] 5
   \<and> convertToDisjointRanges [\<lparr>startOffset = 5, endOffset = 6, count = 1\<rparr>] = []
   \<and> covered [\<lparr>startOffset = 0, endOffset = 10, count = 1\<rparr>,
               \<lparr>startOffset = 3, endOffset = 6, count = 0\<rparr>] 4
   \<and> convertToDisjointRanges [\<lparr>startOffset = 0, endOffset = 10, count = 1\<rparr>,
                              \<lparr>startOffset = 3, endOffset = 6, count = 0\<rparr>]
       = [\<lparr>start = 0, end' = 3\<rparr>, \<lparr>start = 6, end' = 10\<rparr>]
   \<and> \<not> within \<lparr>start = 0, end' = 3\<rparr> 4
   \<and> \<not> within \<lparr>start = 6, end' = 10\<rparr> 4
   \<and> convertToDisjointRanges [\<lparr>startOffset = 0, endOffset = 5, count = 1\<rparr>,
                              \<lparr>startOffset = 3, endOffset = 8, count = 0\<rparr>]
       = [\<lparr>start = 0, end' = 3\<rparr>, \<lparr>start = 5, end' = 8\<rparr>]
   \<and> within \<lparr>start = 5, end' = 8\<rparr> 6
   \<and> \<not> covered [\<lparr>startOffset = 0, endOffset = 5, count = 1\<rparr>,
                 \<lparr>startOffset = 3, endOffset = 8, count = 0\<rparr>] 6"
  by (simp add: covered_def covers_def within_def convertToDisjointRanges_def
      compare_points_def record_segment_def update_stack_def)

text \<open>
  C1, amended: for every well-nested input, each output range of the reducer is a
  maximal run of used positions (all its positions are used, the position before it and
  the position after it are not), and every used position with a used neighbour appears
  in exactly one output range, while a used position without a used neighbour, a run of
  width 1, appears in none.
\<close>

theorem convertToDisjointRanges_runs:
  assumes "well_nested rs"
  shows "(\<forall>u\<in>set (convertToDisjointRanges rs).
            (\<forall>x. within u x \<longrightarrow> used_at rs x)
            \<and> \<not> used_at rs (start u - 1) \<and> \<not> used_at rs (end' u))
       \<and> (\<forall>x. used_at rs x \<longrightarrow>
            (if used_at rs (x - 1) \<or> used_at rs (x + 1)
             then \<exists>!u. u \<in> set (convertToDisjointRanges rs) \<and> within u x
             else \<not> (\<exists>u\<in>set (convertToDisjointRanges rs). within u x)))"
proof -
  let ?U = "scan [] [] 0 (sort_by compare_points (make_points rs))"
  let ?out = "convertToDisjointRanges rs"
  have sep: "separated ?U"
    by (intro scan_separated sort_by_offset_sorted) (simp_all add: separated_def)
  have used: "used_at rs x \<longleftrightarrow> (\<exists>u\<in>set ?U. within u x)" for x
    using scan_used [OF assms] by (auto simp: positions_def)
  have out: "u \<in> set ?out \<longleftrightarrow> u \<in> set ?U \<and> 1 < end' u - start u" for u
    by (auto simp: convertToDisjointRanges_def)
  have same: "u = v" if "u \<in> set ?U" "v \<in> set ?U" "within u x" "within v y" "y = x \<or> y = x + 1"
    for u v x y
    using separated_pair [OF sep that(1,2)] that(3,4,5) by (auto simp: within_def)
  have gap: "\<not> within v (end' u) \<and> \<not> within v (start u - 1)"
    if "u \<in> set ?U" "v \<in> set ?U" for u v
    using separated_pair [OF sep that] separated_wide [OF sep that(1)]
      separated_wide [OF sep that(2)]
    by (auto simp: within_def)
  have part1: "(\<forall>x. within u x \<longrightarrow> used_at rs x)
            \<and> \<not> used_at rs (start u - 1) \<and> \<not> used_at rs (end' u)" if "u \<in> set ?out" for u
  proof -
    from that have u: "u \<in> set ?U" by (simp add: out)
    then show ?thesis using gap [OF u] by (auto simp: used)
  qed
  have part2: "if used_at rs (x - 1) \<or> used_at rs (x + 1)
             then \<exists>!u. u \<in> set ?out \<and> within u x
             else \<not> (\<exists>u\<in>set ?out. within u x)" if "used_at rs x" for x
  proof -
    from that obtain u where u: "u \<in> set ?U" "within u x" unfolding used by blast
    show ?thesis
    proof (cases "used_at rs (x - 1) \<or> used_at rs (x + 1)")
      case True
      then obtain v y where v: "v \<in> set ?U" "within v y" "y = x - 1 \<or> y = x + 1"
        unfolding used by blast
      have "v = u"
      proof (cases "y = x + 1")
        case True
        from same [OF u(1) v(1) u(2) v(2)] True show ?thesis by simp
      next
        case False
        with v(3) have "x = y + 1" by simp
        from same [OF v(1) u(1) v(2) u(2)] this show ?thesis by simp
      qed
      with v u(2) have "1 < end' u - start u" by (auto simp: within_def)
      with u have "u \<in> set ?out \<and> within u x" by (simp add: out)
      moreover have "w = u" if "w \<in> set ?out \<and> within w x" for w
        using same [OF _ u(1) _ u(2), of w x] that by (simp add: out)
      ultimately have "\<exists>!u. u \<in> set ?out \<and> within u x" by blast
      with True show ?thesis by simp
    next
      case False
      have "\<not> within w x" if "w \<in> set ?out" for w
      proof
        assume w: "within w x"
        from that have wU: "w \<in> set ?U" and wide: "1 < end' w - start w" by (simp_all add: out)
        from w wide have "within w (x - 1) \<or> within w (x + 1)" by (auto simp: within_def)
        with wU have "used_at rs (x - 1) \<or> used_at rs (x + 1)" unfolding used by blast
        with False show False by simp
      qed
      with False show ?thesis by auto
    qed
  qed
  from part1 part2 show ?thesis by blast
qed

theorem convertToDisjointRanges_runs_witness:
  "well_nested [\<lparr>startOffset = 0, endOffset = 10, count = 1\<rparr>,
                \<lparr>startOffset = 3, endOffset = 6, count = 0\<rparr>]
   \<and> used_at [\<lparr>startOffset = 0, endOffset = 10, count = 1\<rparr>,
              \<lparr>startOffset = 3, endOffset = 6, count = 0\<rparr>] 7
   \<and> used_at [\<lparr>startOffset = 0, endOffset = 10, count = 1\<rparr>,
              \<lparr>startOffset = 3, endOffset = 6, count = 0\<rparr>] 8
   \<and> (\<exists>!u. u \<in> set (convertToDisjointRanges
                [\<lparr>startOffset = 0, endOffset = 10, count = 1\<rparr>,
                 \<lparr>startOffset = 3, endOffset = 6, count = 0\<rparr>]) \<and> within u 7)
   \<and> \<not> used_at [\<lparr>startOffset = 0, endOffset = 10, count = 1\<rparr>,
                \<lparr>startOffset = 3, endOffset = 6, count = 0\<rparr>] 3"
proof -
  let ?rs = "[\<lparr>startOffset = 0, endOffset = 10, count = 1\<rparr>,
              \<lparr>startOffset = 3, endOffset = 6, count = 0\<rparr>]"
  have wn: "well_nested ?rs" by (simp add: well_nested_def inside_def)
  have u7: "used_at ?rs 7" and u8: "used_at ?rs 8" and u3: "\<not> used_at ?rs 3"
    by (simp_all add: used_at_def covers_def inside_def)
  from convertToDisjointRanges_runs [OF wn]
  have "used_at ?rs 7 \<longrightarrow>
      (if used_at ?rs (7 - 1) \<or> used_at ?rs (7 + 1)
       then \<exists>!u. u \<in> set (convertToDisjointRanges ?rs) \<and> within u 7
       else \<not> (\<exists>u\<in>set (convertToDisjointRanges ?rs). within u 7))"
    by blast
  with u7 u8 have "\<exists>!u. u \<in> set (convertToDisjointRanges ?rs) \<and> within u 7"
    by simp
  with wn u7 u8 u3 show ?thesis by blast
qed

section \<open>Usage errors\<close>

text \<open>
  C4: \<open>start\<close> on a collector that is collecting, and \<open>stop\<close> on one that is idle, raise
  the usage error and return the collector as it was, for JSCoverage and CSSCoverage.
\<close>

theorem usage_error_leaves_collector_unchanged:
  "(enabled js \<longrightarrow>
      JSCoverage_start js options sent = (js, Inl (UsageError ''JSCoverage is already enabled'')))
   \<and> (\<not> enabled js \<longrightarrow>
      JSCoverage_stop js taken = (js, Inl (UsageError ''JSCoverage is not enabled'')))
   \<and> (enabled css \<longrightarrow>
      CSSCoverage_start css option_resetOnNavigation sent
        = (css, Inl (UsageError ''CSSCoverage is already enabled'')))
   \<and> (\<not> enabled css \<longrightarrow>
      CSSCoverage_stop css tracked disabled
        = (css, Inl (UsageError ''CSSCoverage is not enabled'')))"
  by (simp add: JSCoverage_start_def JSCoverage_stop_def CSSCoverage_start_def
      CSSCoverage_stop_def assert_def)

lemma js_collecting_enabled: "enabled js_collecting"
  by (simp add: js_collecting_def JSCoverage_start_def JSCoverage_new_def assert_def)

lemma css_collecting_enabled: "enabled css_collecting"
  by (simp add: css_collecting_def CSSCoverage_start_def CSSCoverage_new_def assert_def)

theorem usage_error_leaves_collector_unchanged_witness:
  "enabled js_collecting
   \<and> JSCoverage_start js_collecting
        \<lparr>opt_resetOnNavigation = Some False, opt_reportAnonymousScripts = Some True,
         opt_includeRawScriptCoverage = None\<rparr> (Inr ())
       = (js_collecting, Inl (UsageError ''JSCoverage is already enabled''))
   \<and> \<not> enabled JSCoverage_new
   \<and> JSCoverage_stop JSCoverage_new (Inr [])
       = (JSCoverage_new, Inl (UsageError ''JSCoverage is not enabled''))
   \<and> enabled css_collecting
   \<and> CSSCoverage_start css_collecting (Some False) (Inr ())
       = (css_collecting, Inl (UsageError ''CSSCoverage is already enabled''))
   \<and> \<not> enabled CSSCoverage_new
   \<and> CSSCoverage_stop CSSCoverage_new (Inr []) (Inr ())
       = (CSSCoverage_new, Inl (UsageError ''CSSCoverage is not enabled''))"
  using usage_error_leaves_collector_unchanged
      [of js_collecting "\<lparr>opt_resetOnNavigation = Some False,
         opt_reportAnonymousScripts = Some True, opt_includeRawScriptCoverage = None\<rparr>"
        "Inr ()" "Inr []" css_collecting "Some False" "Inr []" "Inr ()"]
    usage_error_leaves_collector_unchanged
      [of JSCoverage_new "\<lparr>opt_resetOnNavigation = Some False,
         opt_reportAnonymousScripts = Some True, opt_includeRawScriptCoverage = None\<rparr>"
        "Inr ()" "Inr []" CSSCoverage_new "Some False" "Inr []" "Inr ()"]
    js_collecting_enabled css_collecting_enabled
  by (simp add: JSCoverage_new_def CSSCoverage_new_def)

section \<open>What a session registers\<close>

lemma JSCoverage_entry_enabled [simp]:
  "JSCoverage_entry (this\<lparr>enabled := b\<rparr>) = JSCoverage_entry this"
  by (rule ext) (simp add: JSCoverage_entry_def)

lemma JSCoverage_collect_enabled [simp]:
  "JSCoverage_collect (this\<lparr>enabled := b\<rparr>) es = JSCoverage_collect this es"
  by (induction es) (simp_all split: option.splits)

lemma JSCoverage_collect_map_filter:
  "JSCoverage_collect this es = List.map_filter (JSCoverage_entry this) es"
  by (induction es) (simp_all split: option.splits)

lemma JSCoverage_stop_report:
  "snd (JSCoverage_stop this (Inr profileResponse)) = Inr rep \<Longrightarrow>
   rep = JSCoverage_collect this profileResponse"
  by (auto simp: JSCoverage_stop_def assert_def Let_def split: if_splits)

lemma JSCoverage_entry_no_source:
  assumes "scriptId entry \<notin> fst ` set (scriptSources this)"
  shows "JSCoverage_entry this entry = None"
proof -
  from assms have "map_of (scriptSources this) (scriptId entry) = None"
    by (simp add: map_of_eq_None_iff)
  then show ?thesis by (simp add: JSCoverage_entry_def Let_def)
qed

lemma JSCoverage_collect_filter:
  "(\<And>e. e \<in> set es \<Longrightarrow> \<not> P e \<Longrightarrow> JSCoverage_entry this e = None) \<Longrightarrow>
   JSCoverage_collect this es = JSCoverage_collect this (filter P es)"
  by (induction es) (auto split: option.splits)


lemma js_registered_Cons:
  "set (js_registered (a # as)) = set (js_registered [a]) \<union> set (js_registered as)"
  by (cases "(a # as)" rule: js_registered.cases) auto

lemma js_step_sources:
  "fst ` set (scriptSources (js_collector (js_step s a)))
     \<subseteq> fst ` set (scriptSources (js_collector s)) \<union> set (js_registered [a])"
proof (cases a)
  case (JS_start options sent)
  then show ?thesis
    by (cases sent) (auto simp: JSCoverage_start_def assert_def Let_def)
next
  case (JS_stop taken)
  then show ?thesis
    by (cases taken) (auto simp: JSCoverage_stop_def assert_def Let_def)
next
  case (JS_scriptParsed event)
  then show ?thesis by auto
next
  case (JS_scriptSource event response)
  then show ?thesis
    by (cases response) (auto simp: JSCoverage_onScriptParsed_resume_def dom_update)
next
  case JS_executionContextsCleared
  then show ?thesis by (auto simp: JSCoverage_onExecutionContextsCleared_def)
qed

lemma js_run_sources:
  "fst ` set (scriptSources (js_collector (js_run s as)))
     \<subseteq> fst ` set (scriptSources (js_collector s)) \<union> set (js_registered as)"
proof (induction as arbitrary: s)
  case Nil
  then show ?case by simp
next
  case (Cons a as)
  from Cons.IH [of "js_step s a"] js_step_sources [of s a] js_registered_Cons [of a as]
  show ?case by auto
qed

lemma css_registered_Cons:
  "set (css_registered (a # as)) = set (css_registered [a]) \<union> set (css_registered as)"
  by (cases "(a # as)" rule: css_registered.cases) auto

lemma css_step_urls:
  "fst ` set (stylesheetURLs (css_collector (css_step s a)))
     \<subseteq> fst ` set (stylesheetURLs (css_collector s)) \<union> set (css_registered [a])"
proof (cases a)
  case (CSS_start opt sent)
  then show ?thesis
    by (cases sent) (auto simp: CSSCoverage_start_def assert_def Let_def)
next
  case (CSS_stop tracked disabled)
  then show ?thesis
    by (cases tracked; cases disabled) (auto simp: CSSCoverage_stop_def assert_def Let_def)
next
  case (CSS_styleSheetAdded header)
  then show ?thesis by auto
next
  case (CSS_styleSheetText header response)
  then show ?thesis
    by (cases response) (auto simp: CSSCoverage_onStyleSheet_resume_def dom_update)
next
  case CSS_executionContextsCleared
  then show ?thesis by (auto simp: CSSCoverage_onExecutionContextsCleared_def)
qed

lemma css_run_urls:
  "fst ` set (stylesheetURLs (css_collector (css_run s as)))
     \<subseteq> fst ` set (stylesheetURLs (css_collector s)) \<union> set (css_registered as)"
proof (induction as arbitrary: s)
  case Nil
  then show ?case by simp
next
  case (Cons a as)
  from Cons.IH [of "css_step s a"] css_step_urls [of s a] css_registered_Cons [of a as]
  show ?case by auto
qed

lemma CSSCoverage_stop_report:
  "snd (CSSCoverage_stop this (Inr ruleUsage) disabled) = Inr rep \<Longrightarrow>
   rep = map (CSSCoverage_entry this (aggregate [] ruleUsage)) (map fst (stylesheetURLs this))"
  by (cases disabled)
    (auto simp: CSSCoverage_stop_def CSSCoverage_collect_def CSSCoverage_entry_def
      assert_def Let_def split: if_splits)















section \<open>The invariant of CSS sessions\<close>

lemma update_values:
  "list_all P al \<Longrightarrow> P (k, v) \<Longrightarrow> list_all P (AList.update k v al)"
  by (induction al) auto

lemma css_invariant_new: "css_invariant css_new"
  by (simp add: css_invariant_def css_new_def CSSCoverage_new_def)

lemma css_invariant_resume:
  assumes "css_invariant s" "header \<in> set (css_pending s)"
  shows "css_invariant
           \<lparr>css_collector = CSSCoverage_onStyleSheet_resume (css_collector s) header response,
            css_pending = remove1 header (css_pending s)\<rparr>"
proof -
  from assms have url: "sourceURL header \<noteq> []"
    by (auto simp: css_invariant_def list_all_iff)
  have pend: "list_all (\<lambda>h. sourceURL h \<noteq> []) (remove1 header (css_pending s))"
    using assms(1) by (auto simp: css_invariant_def list_all_iff dest: notin_set_remove1)
  show ?thesis
  proof (cases response)
    case (Inl e)
    with assms(1) pend show ?thesis
      by (auto simp: css_invariant_def CSSCoverage_onStyleSheet_resume_def)
  next
    case (Inr sheetText)
    with assms(1) pend url show ?thesis
      by (auto simp: css_invariant_def CSSCoverage_onStyleSheet_resume_def update_keys
          distinct_update update_values)
  qed
qed

lemma css_invariant_step: "css_invariant s \<Longrightarrow> css_invariant (css_step s a)"
proof (cases a)
  case (CSS_start opt sent)
  assume "css_invariant s"
  then show ?thesis unfolding CSS_start
    by (cases sent)
      (auto simp: css_invariant_def CSSCoverage_start_def assert_def Let_def)
next
  case (CSS_stop tracked disabled)
  assume "css_invariant s"
  then show ?thesis unfolding CSS_stop
    by (cases tracked; cases disabled)
      (auto simp: css_invariant_def CSSCoverage_stop_def assert_def Let_def)
next
  case (CSS_styleSheetAdded header)
  assume "css_invariant s"
  then show ?thesis unfolding CSS_styleSheetAdded
    by (auto simp: css_invariant_def CSSCoverage_onStyleSheet_requests_def)
next
  case (CSS_styleSheetText header response)
  assume "css_invariant s"
  then show ?thesis unfolding CSS_styleSheetText
    using css_invariant_resume [of s header response] by simp
next
  case CSS_executionContextsCleared
  assume "css_invariant s"
  then show ?thesis unfolding CSS_executionContextsCleared
    by (auto simp: css_invariant_def CSSCoverage_onExecutionContextsCleared_def)
qed

lemma css_invariant_run: "css_invariant s \<Longrightarrow> css_invariant (css_run s as)"
  by (induction as arbitrary: s) (simp_all add: css_invariant_step)

lemma css_reachable_invariant: "css_invariant (css_run css_new as)"
  by (rule css_invariant_run [OF css_invariant_new])

lemma aggregate_other:
  "sheetId \<notin> usage_styleSheetId ` set ruleUsage \<Longrightarrow>
   map_of (aggregate m ruleUsage) sheetId = map_of m sheetId"
  by (induction ruleUsage arbitrary: m) (auto simp: Let_def update_conv' split: option.splits)

lemma map_of_keys_Some:
  "distinct (map fst al) \<Longrightarrow> (k, v) \<in> set al \<Longrightarrow> map_of al k = Some v"
  by simp

lemma map_of_same_keys:
  "map fst al = map fst bl \<Longrightarrow> k \<in> fst ` set al \<Longrightarrow> map_of bl k \<noteq> None"
  by (metis image_set map_of_eq_None_iff)


lemma CSSCoverage_stop_enabled:
  "enabled this \<Longrightarrow>
   snd (CSSCoverage_stop this (Inr ruleUsage) (Inr ())) = Inr (CSSCoverage_collect this ruleUsage)"
  by (simp add: CSSCoverage_stop_def assert_def Let_def CSSCoverage_collect_def
      CSSCoverage_entry_def)

lemma CSSCoverage_stop_returns:
  assumes "snd (CSSCoverage_stop this tracked disabled) = Inr rep"
  shows "\<exists>ruleUsage. tracked = Inr ruleUsage \<and> rep = CSSCoverage_collect this ruleUsage"
  using assms
  by (cases tracked; cases disabled)
    (auto simp: CSSCoverage_stop_def assert_def Let_def CSSCoverage_collect_def
      CSSCoverage_entry_def split: if_splits)

text \<open>What the second loop of \<open>stop\<close> builds in a session, whatever the usage data.\<close>

lemma css_collect_reachable:
  fixes as ruleUsage
  defines "c \<equiv> css_collector (css_run css_new as)"
  shows "list_all (\<lambda>e. css_url e \<noteq> None \<and> css_url e \<noteq> Some [])
           (CSSCoverage_collect c ruleUsage)"
    and "map css_url (CSSCoverage_collect c ruleUsage)
           = map (\<lambda>kv. Some (snd kv)) (stylesheetURLs c)"
    and "kv \<in> set (stylesheetURLs c) \<Longrightarrow> fst kv \<notin> usage_styleSheetId ` set ruleUsage \<Longrightarrow>
         \<exists>t. map_of (stylesheetSources c) (fst kv) = Some t
           \<and> \<lparr>css_url = Some (snd kv), css_ranges = [], css_text = Some t\<rparr>
               \<in> set (CSSCoverage_collect c ruleUsage)"
proof -
  have inv: "css_invariant (css_run css_new as)" by (rule css_reachable_invariant)
  then have keys: "map fst (stylesheetURLs c) = map fst (stylesheetSources c)"
    and dist: "distinct (map fst (stylesheetURLs c))"
    and urls: "list_all (\<lambda>kv. snd kv \<noteq> []) (stylesheetURLs c)"
    unfolding c_def by (auto simp: css_invariant_def)
  have look: "map_of (stylesheetURLs c) (fst kv) = Some (snd kv)"
    if "kv \<in> set (stylesheetURLs c)" for kv
    using dist that by (cases kv) simp
  show "list_all (\<lambda>e. css_url e \<noteq> None \<and> css_url e \<noteq> Some [])
           (CSSCoverage_collect c ruleUsage)"
    using look urls
    by (auto simp: CSSCoverage_collect_def CSSCoverage_entry_def list_all_iff)
  show "map css_url (CSSCoverage_collect c ruleUsage)
           = map (\<lambda>kv. Some (snd kv)) (stylesheetURLs c)"
    using look by (simp add: CSSCoverage_collect_def CSSCoverage_entry_def)
  show "\<exists>t. map_of (stylesheetSources c) (fst kv) = Some t
           \<and> \<lparr>css_url = Some (snd kv), css_ranges = [], css_text = Some t\<rparr>
               \<in> set (CSSCoverage_collect c ruleUsage)"
    if "kv \<in> set (stylesheetURLs c)" "fst kv \<notin> usage_styleSheetId ` set ruleUsage"
  proof -
    from that(1) have mem: "fst kv \<in> fst ` set (stylesheetURLs c)" by simp
    from map_of_same_keys [OF keys this] obtain t
      where t: "map_of (stylesheetSources c) (fst kv) = Some t" by auto
    have "CSSCoverage_entry c (aggregate [] ruleUsage) (fst kv)
        = \<lparr>css_url = Some (snd kv), css_ranges = [], css_text = Some t\<rparr>"
      using look [OF that(1)] aggregate_other [OF that(2), of "[]"] t
      by (simp add: CSSCoverage_entry_def convertToDisjointRanges_def)
    moreover have "fst kv \<in> set (map fst (stylesheetURLs c))" using that(1) by simp
    ultimately have "\<lparr>css_url = Some (snd kv), css_ranges = [], css_text = Some t\<rparr>
        \<in> set (CSSCoverage_collect c ruleUsage)"
      unfolding CSSCoverage_collect_def by (metis (no_types, lifting) image_eqI set_map)
    with t show ?thesis by blast
  qed
qed

section \<open>The concrete sessions, evaluated\<close>

lemma js_example_collector:
  "js_example =
     \<lparr>js_collector = \<lparr>enabled = True,
        eventListeners = [''Debugger.scriptParsed'', ''Runtime.executionContextsCleared''],
        resetOnNavigation = True, reportAnonymousScripts = False,
        scriptURLs = [(''7'', ''a.js'')], scriptSources = [(''7'', ''f()'')],
        includeRawScriptCoverage = False\<rparr>, js_pending = []\<rparr>"
  by (simp add: js_example_def js_new_def JSCoverage_new_def JSCoverage_start_def assert_def
      default_to_def JSCoverage_onScriptParsed_requests_def EVALUATION_SCRIPT_URL_def
      JSCoverage_onScriptParsed_resume_def)


lemma css_example_session:
  "css_run css_new css_example_steps =
     \<lparr>css_collector = \<lparr>enabled = True,
        eventListeners = [''CSS.styleSheetAdded'', ''Runtime.executionContextsCleared''],
        resetOnNavigation = True, reportAnonymousScripts = False,
        stylesheetURLs = [(''1'', ''a.css'')], stylesheetSources = [(''1'', ''p{}'')]\<rparr>,
      css_pending = []\<rparr>"
  by (simp add: css_example_steps_def css_new_def CSSCoverage_new_def CSSCoverage_start_def
      assert_def default_to_def CSSCoverage_onStyleSheet_requests_def
      CSSCoverage_onStyleSheet_resume_def)

lemma reducer_0_10: "convertToDisjointRanges [\<lparr>startOffset = 0, endOffset = 10, count = 1\<rparr>]
     = [\<lparr>start = 0, end' = 10\<rparr>]"
  by (simp add: convertToDisjointRanges_def compare_points_def record_segment_def
      update_stack_def)

lemma reducer_0_4: "convertToDisjointRanges [\<lparr>startOffset = 0, endOffset = 4, count = 1\<rparr>]
     = [\<lparr>start = 0, end' = 4\<rparr>]"
  by (simp add: convertToDisjointRanges_def compare_points_def record_segment_def
      update_stack_def)

section \<open>Reports\<close>

text \<open>
  C6: \<open>JSCoverage.stop\<close> on a collecting collector returns a report whenever the protocol
  commands succeed: a per-script result whose text is not recorded, or whose URL cannot
  be resolved, is skipped, the report being the entries of the remaining results; when
  \<open>stop\<close> throws, a protocol command failed and its error is what is thrown.
\<close>

theorem JSCoverage_stop_skips_missing:
  assumes "enabled this"
  shows "snd (JSCoverage_stop this (Inr profileResponse))
           = Inr (List.map_filter (JSCoverage_entry this) profileResponse)
         \<and> (\<forall>entry. map_of (scriptSources this) (scriptId entry) = None
              \<longrightarrow> JSCoverage_entry this entry = None)
         \<and> (\<forall>entry. map_of (scriptURLs this) (scriptId entry) = None
                \<and> \<not> reportAnonymousScripts this
              \<longrightarrow> JSCoverage_entry this entry = None)
         \<and> (\<forall>e. snd (JSCoverage_stop this taken) = Inl e
              \<longrightarrow> (\<exists>m. taken = Inl m \<and> e = ProtocolError m))"
proof (intro conjI allI impI)
  show "snd (JSCoverage_stop this (Inr profileResponse))
           = Inr (List.map_filter (JSCoverage_entry this) profileResponse)"
    using assms
    by (simp add: JSCoverage_stop_def assert_def Let_def JSCoverage_collect_map_filter)
next
  fix entry :: script_coverage
  assume "map_of (scriptSources this) (scriptId entry) = None"
  then show "JSCoverage_entry this entry = None"
    by (simp add: JSCoverage_entry_def Let_def)
next
  fix entry :: script_coverage
  assume "map_of (scriptURLs this) (scriptId entry) = None \<and> \<not> reportAnonymousScripts this"
  then show "JSCoverage_entry this entry = None"
    by (simp add: JSCoverage_entry_def Let_def split: option.splits)
next
  fix e
  assume "snd (JSCoverage_stop this taken) = Inl e"
  then show "\<exists>m. taken = Inl m \<and> e = ProtocolError m"
    using assms
    by (cases taken) (simp_all add: JSCoverage_stop_def assert_def Let_def)
qed

theorem JSCoverage_stop_skips_missing_witness:
  "enabled (js_collector js_example)
   \<and> snd (JSCoverage_stop (js_collector js_example)
        (Inr [\<lparr>scriptId = ''7'', functions' = [[\<lparr>startOffset = 0, endOffset = 10, count = 1\<rparr>]]\<rparr>,
              \<lparr>scriptId = ''9'', functions' = [[\<lparr>startOffset = 0, endOffset = 10, count = 1\<rparr>]]\<rparr>]))
       = Inr [\<lparr>url = ''a.js'', ranges = [\<lparr>start = 0, end' = 10\<rparr>], text' = ''f()'',
               rawScriptCoverage = None\<rparr>]
   \<and> map_of (scriptSources (js_collector js_example)) ''9'' = None
   \<and> JSCoverage_entry (js_collector js_example)
        \<lparr>scriptId = ''9'', functions' = [[\<lparr>startOffset = 0, endOffset = 10, count = 1\<rparr>]]\<rparr>
       = None
   \<and> snd (JSCoverage_stop (js_collector js_example) (Inl ''Target closed''))
       = Inl (ProtocolError ''Target closed'')"
proof -
  have en: "enabled (js_collector js_example)" by (simp add: js_example_collector)
  have entry7: "JSCoverage_entry (js_collector js_example)
      \<lparr>scriptId = ''7'', functions' = [[\<lparr>startOffset = 0, endOffset = 10, count = 1\<rparr>]]\<rparr>
     = Some \<lparr>url = ''a.js'', ranges = [\<lparr>start = 0, end' = 10\<rparr>], text' = ''f()'',
                rawScriptCoverage = None\<rparr>"
    by (simp add: js_example_collector JSCoverage_entry_def reducer_0_10)
  have no9: "map_of (scriptSources (js_collector js_example)) ''9'' = None"
    by (simp add: js_example_collector)
  have thrown: "snd (JSCoverage_stop (js_collector js_example) (Inl ''Target closed''))
       = Inl (ProtocolError ''Target closed'')"
    using en by (simp add: JSCoverage_stop_def assert_def)
  from JSCoverage_stop_skips_missing [OF en,
      of "[\<lparr>scriptId = ''7'', functions' = [[\<lparr>startOffset = 0, endOffset = 10, count = 1\<rparr>]]\<rparr>,
           \<lparr>scriptId = ''9'', functions' = [[\<lparr>startOffset = 0, endOffset = 10, count = 1\<rparr>]]\<rparr>]"
         "Inl ''Target closed''"]
  show ?thesis using en entry7 no9 thrown by simp
qed




text \<open>
  C8: once a cleared-contexts event has been handled with \<open>resetOnNavigation\<close> set,
  whatever follows, the report of \<open>JSCoverage.stop\<close> is the report of those per-script
  results whose script had its source answer arrive after the clear, and every entry
  of the report of \<open>CSSCoverage.stop\<close> is the entry of a sheet whose text arrived after
  the clear.
\<close>

theorem reset_isolates_registrations:
  "(resetOnNavigation (js_collector s) \<longrightarrow>
      (\<forall>rep. snd (JSCoverage_stop
                  (js_collector (js_run s (JS_executionContextsCleared # later)))
                  (Inr profileResponse)) = Inr rep \<longrightarrow>
         rep = JSCoverage_collect
                 (js_collector (js_run s (JS_executionContextsCleared # later)))
                 (filter (\<lambda>entry. scriptId entry \<in> set (js_registered later))
                    profileResponse)))
   \<and> (resetOnNavigation (css_collector t) \<longrightarrow>
      (\<forall>rep. snd (CSSCoverage_stop
                  (css_collector (css_run t (CSS_executionContextsCleared # sheets)))
                  (Inr ruleUsage) disabled) = Inr rep \<longrightarrow>
         list_all (\<lambda>c. \<exists>sheetId \<in> set (css_registered sheets).
              c = CSSCoverage_entry
                    (css_collector (css_run t (CSS_executionContextsCleared # sheets)))
                    (aggregate [] ruleUsage) sheetId) rep))"
proof (intro conjI impI allI)
  fix rep
  let ?c = "js_collector (js_run s (JS_executionContextsCleared # later))"
  assume reset: "resetOnNavigation (js_collector s)"
    and stop: "snd (JSCoverage_stop ?c (Inr profileResponse)) = Inr rep"
  from reset have "scriptSources (js_collector (js_step s JS_executionContextsCleared)) = []"
    by (simp add: JSCoverage_onExecutionContextsCleared_def)
  with js_run_sources [of "js_step s JS_executionContextsCleared" later]
  have "fst ` set (scriptSources ?c) \<subseteq> set (js_registered later)" by simp
  then have "JSCoverage_entry ?c e = None" if "scriptId e \<notin> set (js_registered later)" for e
    using that by (intro JSCoverage_entry_no_source) auto
  then have "JSCoverage_collect ?c profileResponse
      = JSCoverage_collect ?c
          (filter (\<lambda>entry. scriptId entry \<in> set (js_registered later)) profileResponse)"
    by (intro JSCoverage_collect_filter) simp
  with JSCoverage_stop_report [OF stop]
  show "rep = JSCoverage_collect ?c
          (filter (\<lambda>entry. scriptId entry \<in> set (js_registered later)) profileResponse)"
    by simp
next
  fix rep
  let ?c = "css_collector (css_run t (CSS_executionContextsCleared # sheets))"
  assume reset: "resetOnNavigation (css_collector t)"
    and stop: "snd (CSSCoverage_stop ?c (Inr ruleUsage) disabled) = Inr rep"
  from reset have "stylesheetURLs (css_collector (css_step t CSS_executionContextsCleared)) = []"
    by (simp add: CSSCoverage_onExecutionContextsCleared_def)
  with css_run_urls [of "css_step t CSS_executionContextsCleared" sheets]
  have "fst ` set (stylesheetURLs ?c) \<subseteq> set (css_registered sheets)" by simp
  with CSSCoverage_stop_report [OF stop]
  show "list_all (\<lambda>c. \<exists>sheetId \<in> set (css_registered sheets).
              c = CSSCoverage_entry ?c (aggregate [] ruleUsage) sheetId) rep"
    by (auto simp: list_all_iff)
qed

theorem reset_isolates_registrations_witness:
  "resetOnNavigation (js_collector js_example)
   \<and> snd (JSCoverage_stop
        (js_collector (js_run js_example
           [JS_executionContextsCleared,
            JS_scriptParsed \<lparr>event_scriptId = ''8'', event_url = ''b.js''\<rparr>,
            JS_scriptSource \<lparr>event_scriptId = ''8'', event_url = ''b.js''\<rparr> (Inr ''g()'')]))
        (Inr [\<lparr>scriptId = ''7'',
                functions' = [[\<lparr>startOffset = 0, endOffset = 10, count = 1\<rparr>]]\<rparr>,
              \<lparr>scriptId = ''8'',
                functions' = [[\<lparr>startOffset = 0, endOffset = 4, count = 1\<rparr>]]\<rparr>]))
       = Inr [\<lparr>url = ''b.js'', ranges = [\<lparr>start = 0, end' = 4\<rparr>], text' = ''g()'',
               rawScriptCoverage = None\<rparr>]
   \<and> resetOnNavigation (css_collector (css_run css_new css_example_steps))
   \<and> snd (CSSCoverage_stop
        (css_collector (css_run (css_run css_new css_example_steps)
           [CSS_executionContextsCleared,
            CSS_styleSheetAdded \<lparr>styleSheetId = ''3'', sourceURL = ''b.css''\<rparr>,
            CSS_styleSheetText \<lparr>styleSheetId = ''3'', sourceURL = ''b.css''\<rparr> (Inr ''q{}'')]))
        (Inr [\<lparr>usage_styleSheetId = ''1'', usage_startOffset = 0, usage_endOffset = 3,
               used = True\<rparr>,
              \<lparr>usage_styleSheetId = ''3'', usage_startOffset = 0, usage_endOffset = 3,
               used = True\<rparr>])
        (Inr ()))
       = Inr [\<lparr>css_url = Some ''b.css'', css_ranges = [\<lparr>start = 0, end' = 3\<rparr>],
               css_text = Some ''q{}''\<rparr>]"
proof -
  let ?later = "[JS_scriptParsed \<lparr>event_scriptId = ''8'', event_url = ''b.js''\<rparr>,
     JS_scriptSource \<lparr>event_scriptId = ''8'', event_url = ''b.js''\<rparr> (Inr ''g()'')]"
  let ?prof = "[\<lparr>scriptId = ''7'',
                functions' = [[\<lparr>startOffset = 0, endOffset = 10, count = 1\<rparr>]]\<rparr>,
              \<lparr>scriptId = ''8'',
                functions' = [[\<lparr>startOffset = 0, endOffset = 4, count = 1\<rparr>]]\<rparr>]"
  let ?sheets = "[CSS_styleSheetAdded \<lparr>styleSheetId = ''3'', sourceURL = ''b.css''\<rparr>,
     CSS_styleSheetText \<lparr>styleSheetId = ''3'', sourceURL = ''b.css''\<rparr> (Inr ''q{}'')]"
  let ?usage = "[\<lparr>usage_styleSheetId = ''1'', usage_startOffset = 0, usage_endOffset = 3,
               used = True\<rparr>,
              \<lparr>usage_styleSheetId = ''3'', usage_startOffset = 0, usage_endOffset = 3,
               used = True\<rparr>]"
  have js: "js_collector (js_run js_example (JS_executionContextsCleared # ?later))
     = \<lparr>enabled = True,
        eventListeners = [''Debugger.scriptParsed'', ''Runtime.executionContextsCleared''],
        resetOnNavigation = True, reportAnonymousScripts = False,
        scriptURLs = [(''8'', ''b.js'')], scriptSources = [(''8'', ''g()'')],
        includeRawScriptCoverage = False\<rparr>"
    by (simp add: js_example_collector JSCoverage_onExecutionContextsCleared_def
        JSCoverage_onScriptParsed_requests_def EVALUATION_SCRIPT_URL_def
        JSCoverage_onScriptParsed_resume_def)
  have css: "css_collector (css_run (css_run css_new css_example_steps)
       (CSS_executionContextsCleared # ?sheets))
     = \<lparr>enabled = True,
        eventListeners = [''CSS.styleSheetAdded'', ''Runtime.executionContextsCleared''],
        resetOnNavigation = True, reportAnonymousScripts = False,
        stylesheetURLs = [(''3'', ''b.css'')], stylesheetSources = [(''3'', ''q{}'')]\<rparr>"
    by (simp add: css_example_session CSSCoverage_onExecutionContextsCleared_def
        CSSCoverage_onStyleSheet_requests_def CSSCoverage_onStyleSheet_resume_def)
  have r3: "convertToDisjointRanges [\<lparr>startOffset = 0, endOffset = 3, count = 1\<rparr>]
     = [\<lparr>start = 0, end' = 3\<rparr>]"
    by (simp add: convertToDisjointRanges_def compare_points_def record_segment_def
      update_stack_def)
  have stopjs: "snd (JSCoverage_stop
        (js_collector (js_run js_example (JS_executionContextsCleared # ?later))) (Inr ?prof))
       = Inr [\<lparr>url = ''b.js'', ranges = [\<lparr>start = 0, end' = 4\<rparr>], text' = ''g()'',
               rawScriptCoverage = None\<rparr>]"
    unfolding js by (simp add: JSCoverage_stop_def assert_def JSCoverage_entry_def reducer_0_4)
  have stopcss: "snd (CSSCoverage_stop
        (css_collector (css_run (css_run css_new css_example_steps)
           (CSS_executionContextsCleared # ?sheets))) (Inr ?usage) (Inr ()))
       = Inr [\<lparr>css_url = Some ''b.css'', css_ranges = [\<lparr>start = 0, end' = 3\<rparr>],
               css_text = Some ''q{}''\<rparr>]"
    unfolding css
    by (simp add: CSSCoverage_stop_def assert_def CSSCoverage_collect_def
        CSSCoverage_entry_def r3)
  have reset: "resetOnNavigation (js_collector js_example)"
    "resetOnNavigation (css_collector (css_run css_new css_example_steps))"
    by (simp_all add: js_example_collector css_example_session)
  from reset_isolates_registrations
    [of js_example ?later ?prof "css_run css_new css_example_steps" ?sheets ?usage "Inr ()"]
    reset stopjs stopcss
  show ?thesis by simp
qed

text \<open>
  C9: in every CSS session, a stylesheet-added event without a source URL changes
  nothing and requests nothing; whatever the usage data and whenever \<open>stop\<close> returns a
  report, no entry of it lacks a URL or has an empty one; and \<open>stop\<close> on a collecting
  collector, its commands succeeding, returns a report with one entry per registered
  sheet, in order, where a registered sheet without usage records has its known text and
  an empty range list.
\<close>

theorem css_sheets_without_url_never_reported:
  "(sourceURL header = [] \<longrightarrow>
      css_step (css_run css_new as) (CSS_styleSheetAdded header) = css_run css_new as)
   \<and> (\<forall>rep. snd (CSSCoverage_stop (css_collector (css_run css_new as)) tracked disabled)
               = Inr rep \<longrightarrow>
         list_all (\<lambda>e. css_url e \<noteq> None \<and> css_url e \<noteq> Some []) rep)
   \<and> (enabled (css_collector (css_run css_new as)) \<longrightarrow>
        (\<exists>rep. snd (CSSCoverage_stop (css_collector (css_run css_new as))
                      (Inr ruleUsage) (Inr ())) = Inr rep
           \<and> map css_url rep
               = map (\<lambda>kv. Some (snd kv))
                   (stylesheetURLs (css_collector (css_run css_new as)))
           \<and> (\<forall>kv\<in>set (stylesheetURLs (css_collector (css_run css_new as))).
                 fst kv \<notin> usage_styleSheetId ` set ruleUsage \<longrightarrow>
                 (\<exists>t. map_of (stylesheetSources (css_collector (css_run css_new as))) (fst kv)
                        = Some t
                    \<and> \<lparr>css_url = Some (snd kv), css_ranges = [], css_text = Some t\<rparr>
                        \<in> set rep))))"
proof (intro conjI impI allI)
  assume "sourceURL header = []"
  then show "css_step (css_run css_new as) (CSS_styleSheetAdded header) = css_run css_new as"
    by (simp add: CSSCoverage_onStyleSheet_requests_def)
next
  fix rep
  assume "snd (CSSCoverage_stop (css_collector (css_run css_new as)) tracked disabled) = Inr rep"
  from CSSCoverage_stop_returns [OF this] css_collect_reachable(1) [of as]
  show "list_all (\<lambda>e. css_url e \<noteq> None \<and> css_url e \<noteq> Some []) rep" by blast
next
  let ?c = "css_collector (css_run css_new as)"
  assume "enabled ?c"
  then have "snd (CSSCoverage_stop ?c (Inr ruleUsage) (Inr ()))
      = Inr (CSSCoverage_collect ?c ruleUsage)"
    by (rule CSSCoverage_stop_enabled)
  moreover have "map css_url (CSSCoverage_collect ?c ruleUsage)
      = map (\<lambda>kv. Some (snd kv)) (stylesheetURLs ?c)"
    by (rule css_collect_reachable(2))
  moreover have "\<forall>kv\<in>set (stylesheetURLs ?c).
      fst kv \<notin> usage_styleSheetId ` set ruleUsage \<longrightarrow>
      (\<exists>t. map_of (stylesheetSources ?c) (fst kv) = Some t
         \<and> \<lparr>css_url = Some (snd kv), css_ranges = [], css_text = Some t\<rparr>
             \<in> set (CSSCoverage_collect ?c ruleUsage))"
    using css_collect_reachable(3) [of _ as ruleUsage] by blast
  ultimately show "\<exists>rep. snd (CSSCoverage_stop ?c (Inr ruleUsage) (Inr ())) = Inr rep
           \<and> map css_url rep = map (\<lambda>kv. Some (snd kv)) (stylesheetURLs ?c)
           \<and> (\<forall>kv\<in>set (stylesheetURLs ?c).
                 fst kv \<notin> usage_styleSheetId ` set ruleUsage \<longrightarrow>
                 (\<exists>t. map_of (stylesheetSources ?c) (fst kv) = Some t
                    \<and> \<lparr>css_url = Some (snd kv), css_ranges = [], css_text = Some t\<rparr>
                        \<in> set rep))"
    by blast
qed

theorem css_sheets_without_url_never_reported_witness:
  "sourceURL \<lparr>styleSheetId = ''2'', sourceURL = []\<rparr> = []
   \<and> css_step (css_run css_new css_example_steps)
        (CSS_styleSheetAdded \<lparr>styleSheetId = ''2'', sourceURL = []\<rparr>)
       = css_run css_new css_example_steps
   \<and> enabled (css_collector (css_run css_new css_example_steps))
   \<and> stylesheetURLs (css_collector (css_run css_new css_example_steps)) = [(''1'', ''a.css'')]
   \<and> snd (CSSCoverage_stop (css_collector (css_run css_new css_example_steps))
        (Inr [\<lparr>usage_styleSheetId = ''2'', usage_startOffset = 0, usage_endOffset = 3,
               used = True\<rparr>]) (Inr ()))
       = Inr [\<lparr>css_url = Some ''a.css'', css_ranges = [], css_text = Some ''p{}''\<rparr>]"
proof -
  let ?c = "css_collector (css_run css_new css_example_steps)"
  let ?usage = "[\<lparr>usage_styleSheetId = ''2'', usage_startOffset = 0, usage_endOffset = 3,
          used = True\<rparr>]"
  have en: "enabled ?c" and urls: "stylesheetURLs ?c = [(''1'', ''a.css'')]"
    by (simp_all add: css_example_session)
  have stop: "snd (CSSCoverage_stop ?c (Inr ?usage) (Inr ()))
       = Inr [\<lparr>css_url = Some ''a.css'', css_ranges = [], css_text = Some ''p{}''\<rparr>]"
    by (simp add: css_example_session CSSCoverage_stop_def assert_def CSSCoverage_collect_def
        CSSCoverage_entry_def convertToDisjointRanges_def)
  have "sourceURL \<lparr>styleSheetId = ''2'', sourceURL = []\<rparr> = [] \<longrightarrow>
      css_step (css_run css_new css_example_steps)
        (CSS_styleSheetAdded \<lparr>styleSheetId = ''2'', sourceURL = []\<rparr>)
       = css_run css_new css_example_steps"
    using css_sheets_without_url_never_reported
      [of "\<lparr>styleSheetId = ''2'', sourceURL = []\<rparr>" css_example_steps "Inr ?usage" "Inr ()"
        ?usage]
    by (rule conjunct1)
  then have same: "css_step (css_run css_new css_example_steps)
        (CSS_styleSheetAdded \<lparr>styleSheetId = ''2'', sourceURL = []\<rparr>)
       = css_run css_new css_example_steps"
    by (simp del: css_run.simps css_step.simps)
  note css_sheets_without_url_never_reported
      [of "\<lparr>styleSheetId = ''2'', sourceURL = []\<rparr>" css_example_steps "Inr ?usage" "Inr ()"
        ?usage, THEN conjunct2, THEN conjunct2, THEN mp, OF en]
  then obtain rep where "snd (CSSCoverage_stop ?c (Inr ?usage) (Inr ())) = Inr rep"
    and "map css_url rep = map (\<lambda>kv. Some (snd kv)) (stylesheetURLs ?c)"
    by blast
  with stop urls have "map css_url
      [\<lparr>css_url = Some ''a.css'', css_ranges = [], css_text = Some ''p{}''\<rparr>]
     = [Some ''a.css'']"
    by (simp del: css_run.simps css_step.simps)
  with same stop en urls show ?thesis by (simp del: css_run.simps css_step.simps)
qed

text \<open>
  C10: in every state that a CSS session reaches, the two maps of the collector have the
  same keys, and every entry of a report has a defined text.
\<close>

theorem css_registry_keys_agree:
  "set (map fst (stylesheetURLs (css_collector (css_run css_new as))))
     = set (map fst (stylesheetSources (css_collector (css_run css_new as))))
   \<and> list_all (\<lambda>c. css_text c \<noteq> None)
        (CSSCoverage_collect (css_collector (css_run css_new as)) ruleUsage)"
proof -
  let ?c = "css_collector (css_run css_new as)"
  have keys: "map fst (stylesheetURLs ?c) = map fst (stylesheetSources ?c)"
    using css_reachable_invariant [of as] by (simp add: css_invariant_def)
  have "map_of (stylesheetSources ?c) k \<noteq> None" if "k \<in> fst ` set (stylesheetURLs ?c)" for k
    using keys that by (rule map_of_same_keys)
  then have "list_all (\<lambda>c. css_text c \<noteq> None) (CSSCoverage_collect ?c ruleUsage)"
    by (auto simp: CSSCoverage_collect_def CSSCoverage_entry_def list_all_iff)
  with keys show ?thesis by simp
qed


theorem css_registry_keys_agree_witness:
  "map fst (stylesheetURLs (css_collector (css_run css_new css_example_steps))) = [''1'']
   \<and> map fst (stylesheetSources (css_collector (css_run css_new css_example_steps))) = [''1'']
   \<and> map css_text (CSSCoverage_collect (css_collector (css_run css_new css_example_steps))
        [\<lparr>usage_styleSheetId = ''1'', usage_startOffset = 0, usage_endOffset = 3,
          used = True\<rparr>])
       = [Some ''p{}'']"
proof -
  let ?usage = "[\<lparr>usage_styleSheetId = ''1'', usage_startOffset = 0, usage_endOffset = 3,
          used = True\<rparr>]"
  have "map css_text (CSSCoverage_collect (css_collector (css_run css_new css_example_steps))
        ?usage) = [Some ''p{}'']"
    by (simp add: css_example_session CSSCoverage_collect_def CSSCoverage_entry_def)
  with css_registry_keys_agree [of css_example_steps ?usage]
  show ?thesis by (simp add: css_example_session)
qed

end
